theory Spec2Isabelle
  imports Main "HOL-Library.Word" "HOL-Library.Multiset"
begin

section \<open>JavaScript strings\<close>

text \<open>
  A JavaScript string is a sequence of UTF-16 code units; \<open>s.length\<close>, \<open>s[i]\<close> and
  \<open>s.charCodeAt(i)\<close> count and read code units. The program's Korean literals are written
  below as their code units.
\<close>

type_synonym code_unit = "16 word"
type_synonym jsstring = "code_unit list"

definition js :: "string \<Rightarrow> jsstring" where
  "js s = map of_char s"

text \<open>
  \<open>String.prototype.trim\<close> removes leading and trailing WhiteSpace and LineTerminator code
  points; the regular expression class \<open>\s\<close> matches the same set.
\<close>

definition isWhiteSpace :: "code_unit \<Rightarrow> bool" where
  "isWhiteSpace c \<longleftrightarrow>
     c \<in> {0x9, 0xA, 0xB, 0xC, 0xD, 0x20, 0xA0, 0x1680, 0x2000, 0x2001, 0x2002, 0x2003,
          0x2004, 0x2005, 0x2006, 0x2007, 0x2008, 0x2009, 0x200A, 0x2028, 0x2029,
          0x202F, 0x205F, 0x3000, 0xFEFF}"

definition trim :: "jsstring \<Rightarrow> jsstring" where
  "trim s = rev (dropWhile isWhiteSpace (rev (dropWhile isWhiteSpace s)))"

text \<open>\<open>s.endsWith(suffix)\<close>.\<close>

definition endsWith :: "jsstring \<Rightarrow> jsstring \<Rightarrow> bool" where
  "endsWith s suffix \<longleftrightarrow>
     length suffix \<le> length s \<and> drop (length s - length suffix) s = suffix"

text \<open>\<open>s.startsWith(p)\<close> and \<open>s.includes(needle)\<close>.\<close>

definition startsWith :: "jsstring \<Rightarrow> jsstring \<Rightarrow> bool" where
  "startsWith s p \<longleftrightarrow> take (length p) s = p"

fun includesStr :: "jsstring \<Rightarrow> jsstring \<Rightarrow> bool" where
  "includesStr [] needle = (needle = [])"
| "includesStr (c # cs) needle = (startsWith (c # cs) needle \<or> includesStr cs needle)"

text \<open>
  \<open>s.split(sep)\<close> for a separator of one code unit: the pieces between the occurrences of
  the separator, empty pieces included; the empty string gives one empty piece. \<open>piece\<close>
  holds, reversed, the code units read since the last separator.
\<close>

fun splitFrom :: "code_unit \<Rightarrow> jsstring \<Rightarrow> jsstring \<Rightarrow> jsstring list" where
  "splitFrom sep piece [] = [rev piece]"
| "splitFrom sep piece (c # cs) =
     (if c = sep then rev piece # splitFrom sep [] cs else splitFrom sep (c # piece) cs)"

definition split :: "code_unit \<Rightarrow> jsstring \<Rightarrow> jsstring list" where
  "split sep s = splitFrom sep [] s"

text \<open>\<open>parts.join(sep)\<close>.\<close>

fun join :: "jsstring \<Rightarrow> jsstring list \<Rightarrow> jsstring" where
  "join sep [] = []"
| "join sep [p] = p"
| "join sep (p # q # ps) = p @ sep @ join sep (q # ps)"

section \<open>The platform\<close>

text \<open>
  The program calls four services of its JavaScript engine that are not part of the
  repository: the URL parser (\<open>new URL(u).hostname\<close>, which throws on a string that is not
  an absolute URL), Unicode case conversion, and locale-aware comparison, plain and with the
  option \<open>numeric: true\<close>. They are parameters of the model: every function below that
  reaches one of them takes the platform as its first argument, and a theorem stated for a
  platform \<open>P\<close> holds whatever the engine does.
\<close>

record platform =
  urlHostname :: "jsstring \<Rightarrow> jsstring option"
  toLowerCase :: "jsstring \<Rightarrow> jsstring"
  toUpperCase :: "jsstring \<Rightarrow> jsstring"
  localeCompare :: "jsstring \<Rightarrow> jsstring \<Rightarrow> int"
  localeCompareNumeric :: "jsstring \<Rightarrow> jsstring \<Rightarrow> int"

text \<open>
  \<open>Array.prototype.sort(cmp)\<close> is stable: for a consistent comparator its result is the one
  sorted arrangement that keeps equal elements in their original order, which is what
  insertion from the right computes. \<open>cmp a b > 0\<close> places \<open>a\<close> after \<open>b\<close>.
\<close>

fun insertBy :: "('a \<Rightarrow> 'a \<Rightarrow> int) \<Rightarrow> 'a \<Rightarrow> 'a list \<Rightarrow> 'a list" where
  "insertBy cmp x [] = [x]"
| "insertBy cmp x (y # ys) = (if cmp x y \<le> 0 then x # y # ys else y # insertBy cmp x ys)"

definition sortWith :: "('a \<Rightarrow> 'a \<Rightarrow> int) \<Rightarrow> 'a list \<Rightarrow> 'a list" where
  "sortWith cmp xs = foldr (insertBy cmp) xs []"

text \<open>
  A comparator is consistent on a set when "not after" is total and transitive there.
\<close>

definition consistentOn :: "('a \<Rightarrow> 'a \<Rightarrow> int) \<Rightarrow> 'a set \<Rightarrow> bool" where
  "consistentOn cmp A \<longleftrightarrow>
     (\<forall>a\<in>A. \<forall>b\<in>A. cmp a b \<le> 0 \<or> cmp b a \<le> 0) \<and>
     (\<forall>a\<in>A. \<forall>b\<in>A. \<forall>c\<in>A. cmp a b \<le> 0 \<longrightarrow> cmp b c \<le> 0 \<longrightarrow> cmp a c \<le> 0)"

section \<open>URL and host utilities\<close>

text \<open>\<open>getHostname\<close>: the parsed host, or the argument itself when the parser throws.\<close>

definition getHostname :: "platform \<Rightarrow> jsstring \<Rightarrow> jsstring" where
  "getHostname P u = (case urlHostname P u of Some host \<Rightarrow> host | None \<Rightarrow> u)"

definition ROOT_DOMAIN :: jsstring where
  "ROOT_DOMAIN = js ''huny.dev''"

definition getSubdomainForSort :: "platform \<Rightarrow> jsstring \<Rightarrow> jsstring" where
  "getSubdomainForSort P u =
     (let host = getHostname P u in
      if endsWith host ROOT_DOMAIN then
        (let parts = split 0x2E host in
         if length parts \<ge> 3 then parts ! 0 else host)
      else host)"

section \<open>Placeholder identity utilities\<close>

text \<open>
  \<open>t.split(/\s+|\.|-/)\<close>: the scan of \<open>String.prototype.split\<close> with a regular expression.
  \<open>piece\<close> holds, reversed, the code units read since the last match. At a white space
  code unit the first alternative matches the whole run of white space; at \<open>.\<close> or \<open>-\<close> the
  second or third alternative matches that one code unit; the text after the last match is
  the last piece. The program calls it on a non-empty string only.
\<close>

definition isSeparator :: "code_unit \<Rightarrow> bool" where
  "isSeparator c \<longleftrightarrow> isWhiteSpace c \<or> c = 0x2E \<or> c = 0x2D"

function splitSeparators :: "jsstring \<Rightarrow> jsstring \<Rightarrow> jsstring list" where
  "splitSeparators piece [] = [rev piece]"
| "splitSeparators piece (c # cs) =
     (if isWhiteSpace c then rev piece # splitSeparators [] (dropWhile isWhiteSpace cs)
      else if c = 0x2E \<or> c = 0x2D then rev piece # splitSeparators [] cs
      else splitSeparators (c # piece) cs)"
  by pat_completeness auto
termination
  by (relation "measure (\<lambda>(piece, cs). length cs)")
     (auto simp: length_dropWhile_le less_Suc_eq_le)

text \<open>\<open>parts[i]?.[0] ?? ""\<close>: the first code unit of the \<open>i\<close>-th part, or the empty string.\<close>

definition firstOf :: "jsstring list \<Rightarrow> nat \<Rightarrow> jsstring" where
  "firstOf parts i = (if i < length parts then take 1 (parts ! i) else [])"

definition initialsFrom :: "platform \<Rightarrow> jsstring \<Rightarrow> jsstring" where
  "initialsFrom P text =
     (let t = trim text in
      if t = [] then js ''?''
      else
        (let parts = filter (\<lambda>p. p \<noteq> []) (splitSeparators [] t);
             first = firstOf parts 0;
             second = firstOf parts 1
         in toUpperCase P (first @ second)))"

text \<open>
  \<open>hashToHsl\<close>: \<open>h\<close> is a Number holding a non-negative integer. \<open>h * 31 + s.charCodeAt(i)\<close>
  is computed in double precision and \<open>>>> 0\<close> reduces it modulo \<open>2 ^ 32\<close>.
\<close>

definition hashStep :: "nat \<Rightarrow> code_unit \<Rightarrow> nat" where
  "hashStep h c = (h * 31 + unat c) mod 2 ^ 32"

definition hashOf :: "jsstring \<Rightarrow> nat" where
  "hashOf s = foldl hashStep 0 s"

record hsl =
  hsl_h :: nat
  hsl_s :: nat
  hsl_l :: nat

definition hashToHsl :: "jsstring \<Rightarrow> hsl" where
  "hashToHsl s = \<lparr>hsl_h = hashOf s mod 360, hsl_s = 65, hsl_l = 50\<rparr>"

text \<open>
  The hash as the specification words it: a 32-bit unsigned value, starting at 0, each
  code unit accumulated with wrap-around arithmetic.
\<close>

definition specHash :: "jsstring \<Rightarrow> 32 word" where
  "specHash s = foldl (\<lambda>hash c. hash * 31 + ucast c) 0 s"

section \<open>The catalog\<close>

record AppItem =
  title :: jsstring
  url :: jsstring
  description :: "jsstring option"
  category :: "jsstring option"
  thumbnail :: "jsstring option"

datatype SortMode = Name | Category

definition UNCATEGORIZED :: jsstring where
  "UNCATEGORIZED = [0xADF8, 0xB8F9, 0xC5C6, 0xC74C]"

text \<open>The category filter's sentinel, the literal compared with \<open>category\<close> in the filter.\<close>

definition ALL_CATEGORIES :: jsstring where
  "ALL_CATEGORIES = [0xC804, 0xCCB4]"

definition FALLBACK_APPS :: "AppItem list" where
  "FALLBACK_APPS =
   [\<lparr>title = js ''Studio'', url = js ''https://studio.huny.dev'',
     description = Some [0xB0B4, 0x20, 0xC6F9, 0xC571, 0x20, 0xD3EC, 0xD138, 0x28, 0xBBF8,
                         0xB9AC, 0xBCF4, 0xAE30, 0x29],
     category = Some [0xD3EC, 0xD138], thumbnail = None\<rparr>,
    \<lparr>title = js ''Sites'', url = js ''https://sites.huny.dev'',
     description = Some [0xB3C4, 0xBA54, 0xC778, 0x20, 0xB9C1, 0xD06C, 0x20, 0x26, 0x20,
                         0xC124, 0xBA85, 0x20, 0xC9D1, 0xD569],
     category = Some [0xB3C4, 0xAD6C], thumbnail = None\<rparr>,
    \<lparr>title = js ''TTS Lab'', url = js ''https://tts.huny.dev'',
     description = Some [0xD14D, 0xC2A4, 0xD2B8, 0x2D, 0xC74C, 0xC131, 0x20, 0xD569, 0xC131,
                         0x20, 0xAD00, 0xB828, 0x20, 0xC2E4, 0xD5D8, 0xC2E4],
     category = Some (js ''AI / '' @ [0xC624, 0xB514, 0xC624]), thumbnail = None\<rparr>,
    \<lparr>title = js ''VC Demo'', url = js ''https://vc.huny.dev'',
     description = Some (js ''Voice Conversion '' @ [0xB370, 0xBAA8]),
     category = Some (js ''AI / '' @ [0xC624, 0xB514, 0xC624]), thumbnail = None\<rparr>,
    \<lparr>title = js ''Docs'', url = js ''https://docs.huny.dev'',
     description = Some [0xBB38, 0xC11C, 0x2F, 0xBA54, 0xBAA8, 0x20, 0xB354, 0xBBF8],
     category = Some [0xBB38, 0xC11C], thumbnail = None\<rparr>,
    \<lparr>title = js ''Playground'', url = js ''https://lab.huny.dev'',
     description = Some [0xAC01, 0xC885, 0x20, 0xC2E4, 0xD5D8],
     category = None, thumbnail = None\<rparr>]"

section \<open>The catalog loader\<close>

text \<open>
  The value \<open>res.json()\<close> resolves to. The program looks at its shape only: whether it is an
  array, and otherwise whether it has a property \<open>apps\<close> that is an array. The elements of
  an array are taken at the type the program casts them to. A number is the 64 bits of its
  double. An object is its properties, each name once.
\<close>

datatype 'a json =
    JNull
  | JBool bool
  | JNum "64 word"
  | JStr jsstring
  | JArr "'a list"
  | JObj "(jsstring \<times> 'a json) list"

text \<open>
  What the fetch of \<open>/apps.json\<close> comes to: the request rejects, or a response arrives with
  its \<open>ok\<close> flag and the result of parsing its body (\<open>None\<close>: \<open>res.json()\<close> rejects).
\<close>

datatype 'a fetched = NetworkError | Response bool "'a json option"

definition LOAD_ERROR_MESSAGE :: jsstring where
  "LOAD_ERROR_MESSAGE =
     [0xC6D0, 0xACA9, 0x20] @ js ''apps.json'' @
     [0xC744, 0x20, 0xBD88, 0xB7EC, 0xC624, 0xC9C0, 0x20, 0xBABB, 0xD574, 0x20, 0xB0B4,
      0xC7A5, 0x20, 0xC608, 0xC2DC, 0x20, 0xB370, 0xC774, 0xD130, 0xB97C, 0x20, 0xD45C,
      0xC2DC, 0xD569, 0xB2C8, 0xB2E4, 0x2E, 0x20, 0x28, 0xBC30, 0xD3EC, 0x20, 0xC2DC, 0x20] @
     js ''/apps.json'' @
     [0xC744, 0x20, 0xB8E8, 0xD2B8, 0xC5D0, 0x20, 0xB450, 0xC138, 0xC694, 0x29]"

text \<open>
  \<open>Array.isArray(data) ? data : Array.isArray(data?.apps) ? data.apps : []\<close>. Only an object
  can have the property; \<open>null\<close>, booleans, numbers and strings give \<open>undefined\<close>.
\<close>

definition listOf :: "'a json \<Rightarrow> 'a list" where
  "listOf data =
     (case data of
        JArr xs \<Rightarrow> xs
      | JObj props \<Rightarrow> (case map_of props (js ''apps'') of Some (JArr xs) \<Rightarrow> xs | _ \<Rightarrow> [])
      | _ \<Rightarrow> [])"

text \<open>
  The body of the \<open>try\<close> block: \<open>None\<close> when it throws (the request rejected, the status
  was not OK, the body did not parse, or the list is empty), the list otherwise.
\<close>

definition tryLoad :: "'a fetched \<Rightarrow> 'a list option" where
  "tryLoad f =
     (case f of
        NetworkError \<Rightarrow> None
      | Response ok body \<Rightarrow>
          if \<not> ok then None
          else (case body of
                  None \<Rightarrow> None
                | Some data \<Rightarrow> (let list = listOf data in if length list = 0 then None else Some list)))"

text \<open>
  The component's state that the loader writes. The effect first clears the error, then
  awaits the fetch; when the fetch settles it writes the state unless the component has
  been torn down meanwhile (\<open>cancelled\<close>).
\<close>

record LoadState =
  st_apps :: "AppItem list option"
  st_loadError :: "jsstring option"

definition loadEffect :: "bool \<Rightarrow> AppItem fetched \<Rightarrow> LoadState \<Rightarrow> LoadState" where
  "loadEffect cancelled f st =
     (let st1 = st\<lparr>st_loadError := None\<rparr> in
      case tryLoad f of
        Some list \<Rightarrow> if \<not> cancelled then st1\<lparr>st_apps := Some list\<rparr> else st1
      | None \<Rightarrow>
          if \<not> cancelled
          then st1\<lparr>st_apps := Some FALLBACK_APPS, st_loadError := Some LOAD_ERROR_MESSAGE\<rparr>
          else st1)"

section \<open>The catalog pipeline\<close>

text \<open>\<open>a.category ?? UNCATEGORIZED\<close>.\<close>

definition categoryKey :: "AppItem \<Rightarrow> jsstring" where
  "categoryKey a = (case category a of Some c \<Rightarrow> c | None \<Rightarrow> UNCATEGORIZED)"

text \<open>The text searched for the query: the five fields joined by line feeds, lower-cased.\<close>

definition haystack :: "platform \<Rightarrow> AppItem \<Rightarrow> jsstring" where
  "haystack P a =
     toLowerCase P
       (join [0xA]
          [title a, (case description a of Some d \<Rightarrow> d | None \<Rightarrow> []), url a,
           getHostname P (url a), getSubdomainForSort P (url a)])"

definition passQuery :: "platform \<Rightarrow> jsstring \<Rightarrow> AppItem \<Rightarrow> bool" where
  "passQuery P query a =
     (let q = toLowerCase P (trim query) in
      if q \<noteq> [] then includesStr (haystack P a) q else True)"

definition passCat :: "platform \<Rightarrow> jsstring \<Rightarrow> AppItem \<Rightarrow> bool" where
  "passCat P cat a =
     (if cat = ALL_CATEGORIES then True
      else toLowerCase P (categoryKey a) = toLowerCase P cat)"

text \<open>\<open>apps ?? []\<close>: the catalog, empty until the loader has written it.\<close>

definition catalogOf :: "AppItem list option \<Rightarrow> AppItem list" where
  "catalogOf apps = (case apps of Some list \<Rightarrow> list | None \<Rightarrow> [])"

definition filtered :: "platform \<Rightarrow> AppItem list option \<Rightarrow> jsstring \<Rightarrow> jsstring \<Rightarrow> AppItem list" where
  "filtered P apps query cat =
     filter (\<lambda>a. passQuery P query a \<and> passCat P cat a) (catalogOf apps)"

definition nameCompare :: "platform \<Rightarrow> AppItem \<Rightarrow> AppItem \<Rightarrow> int" where
  "nameCompare P a b =
     localeCompareNumeric P (toLowerCase P (getSubdomainForSort P (url a)))
                            (toLowerCase P (getSubdomainForSort P (url b)))"

definition categoryCompare :: "platform \<Rightarrow> AppItem \<Rightarrow> AppItem \<Rightarrow> int" where
  "categoryCompare P a b =
     (let ca = toLowerCase P (categoryKey a); cb = toLowerCase P (categoryKey b) in
      if ca \<noteq> cb then localeCompareNumeric P ca cb
      else localeCompareNumeric P (toLowerCase P (getSubdomainForSort P (url a)))
                                  (toLowerCase P (getSubdomainForSort P (url b))))"

definition normalized ::
  "platform \<Rightarrow> AppItem list option \<Rightarrow> jsstring \<Rightarrow> SortMode \<Rightarrow> jsstring \<Rightarrow> AppItem list" where
  "normalized P apps query mode cat =
     (let flt = filtered P apps query cat;
          nameSorted = sortWith (nameCompare P) flt
      in if mode = Name then nameSorted else sortWith (categoryCompare P) flt)"

text \<open>
  A \<open>Set\<close> keeps its values in the order of their first insertion; \<open>setAdd\<close> is \<open>set.add\<close>.
\<close>

definition setAdd :: "'a list \<Rightarrow> 'a \<Rightarrow> 'a list" where
  "setAdd s x = (if x \<in> set s then s else s @ [x])"

definition categories :: "platform \<Rightarrow> AppItem list option \<Rightarrow> jsstring list" where
  "categories P apps =
     ALL_CATEGORIES #
       sortWith (localeCompare P)
         (foldl setAdd [] (map categoryKey (catalogOf apps)))"

text \<open>
  A \<open>Map\<close> keeps its entries in the order of the first insertion of each key. One turn of
  the grouping loop: create the bucket of the record's key if there is none, then push the
  record onto it.
\<close>

definition groupStep ::
  "(jsstring \<times> AppItem list) list \<Rightarrow> AppItem \<Rightarrow> (jsstring \<times> AppItem list) list" where
  "groupStep m a =
     (let key = categoryKey a;
          m1 = (if map_of m key = None then m @ [(key, [])] else m)
      in map (\<lambda>(k, items). if k = key then (k, items @ [a]) else (k, items)) m1)"

text \<open>
  \<open>grouped\<close>: the groups \<open>{key, items}\<close> as pairs. \<open>map.get(k)!\<close> is always a bucket, since
  the keys are the map's own.
\<close>

definition groupedOf :: "platform \<Rightarrow> AppItem list \<Rightarrow> (jsstring \<times> AppItem list) list" where
  "groupedOf P records =
     (let m = foldl groupStep [] records;
          keys = sortWith (localeCompare P) (map fst m)
      in map (\<lambda>k. (k, (case map_of m k of Some items \<Rightarrow> items | None \<Rightarrow> []))) keys)"

definition grouped ::
  "platform \<Rightarrow> AppItem list option \<Rightarrow> jsstring \<Rightarrow> SortMode \<Rightarrow> jsstring \<Rightarrow>
   (jsstring \<times> AppItem list) list" where
  "grouped P apps query mode cat = groupedOf P (normalized P apps query mode cat)"

text \<open>The groups laid end to end: partitions in order, items in order within each.\<close>

definition flatten :: "(jsstring \<times> AppItem list) list \<Rightarrow> AppItem list" where
  "flatten groups = concat (map snd groups)"

section \<open>A reference platform for the examples\<close>

text \<open>
  The concrete examples below need a concrete platform. \<open>refPlatform\<close> stands in for the
  engine on the strings the examples use: URLs of the form \<open>http://host\<close> or
  \<open>https://host\<close>, optionally followed by \<open>/\<close> and a path, with a host of ASCII letters,
  digits, \<open>-\<close> and \<open>.\<close>, for which the engine's parser returns the host in lower case, and
  strings without a scheme, on which the engine's parser throws; case conversion of ASCII
  letters (Hangul syllables have no case); and comparison of strings of ASCII letters and
  Hangul syllables, which the engine orders alphabetically with lower case before upper
  case on a tie. Nothing is claimed through it for other strings.
\<close>

definition isAsciiUpper :: "code_unit \<Rightarrow> bool" where
  "isAsciiUpper c \<longleftrightarrow> 0x41 \<le> c \<and> c \<le> 0x5A"

definition isAsciiLower :: "code_unit \<Rightarrow> bool" where
  "isAsciiLower c \<longleftrightarrow> 0x61 \<le> c \<and> c \<le> 0x7A"

definition isHostUnit :: "code_unit \<Rightarrow> bool" where
  "isHostUnit c \<longleftrightarrow>
     isAsciiUpper c \<or> isAsciiLower c \<or> (0x30 \<le> c \<and> c \<le> 0x39) \<or> c = 0x2D \<or> c = 0x2E"

definition asciiLower :: "code_unit \<Rightarrow> code_unit" where
  "asciiLower c = (if isAsciiUpper c then c + 0x20 else c)"

definition asciiUpper :: "code_unit \<Rightarrow> code_unit" where
  "asciiUpper c = (if isAsciiLower c then c - 0x20 else c)"

definition refHostname :: "jsstring \<Rightarrow> jsstring option" where
  "refHostname u =
     (let rest = (if startsWith u (js ''https://'') then Some (drop 8 u)
                  else if startsWith u (js ''http://'') then Some (drop 7 u)
                  else None)
      in case rest of
           None \<Rightarrow> None
         | Some r \<Rightarrow>
             (let host = takeWhile isHostUnit r; after = dropWhile isHostUnit r in
              if host \<noteq> [] \<and> (after = [] \<or> take 1 after = [0x2F])
              then Some (map asciiLower host) else None))"

fun compareUnits :: "jsstring \<Rightarrow> jsstring \<Rightarrow> int" where
  "compareUnits [] [] = 0"
| "compareUnits [] (y # ys) = - 1"
| "compareUnits (x # xs) [] = 1"
| "compareUnits (x # xs) (y # ys) =
     (if x < y then - 1 else if y < x then 1 else compareUnits xs ys)"

definition refCompare :: "jsstring \<Rightarrow> jsstring \<Rightarrow> int" where
  "refCompare a b =
     (let primary = compareUnits (map asciiLower a) (map asciiLower b) in
      if primary \<noteq> 0 then primary else compareUnits b a)"

definition refPlatform :: platform where
  "refPlatform =
     \<lparr>urlHostname = refHostname,
      toLowerCase = map asciiLower,
      toUpperCase = map asciiUpper,
      localeCompare = refCompare,
      localeCompareNumeric = refCompare\<rparr>"

section \<open>The specification's notions\<close>

text \<open>
  The number of dot-separated labels of a host, and its first label, as the specification
  speaks of them.
\<close>

definition specLabelCount :: "jsstring \<Rightarrow> nat" where
  "specLabelCount host = Suc (count_list host 0x2E)"

definition specFirstLabel :: "jsstring \<Rightarrow> jsstring" where
  "specFirstLabel host = takeWhile (\<lambda>c. c \<noteq> 0x2E) host"

text \<open>
  The tokens of a text: its maximal non-empty runs of code units that are neither white
  space nor \<open>.\<close> nor \<open>-\<close>. \<open>specInitials\<close> is the label as the specification words it.
\<close>

function specTokens :: "jsstring \<Rightarrow> jsstring list" where
  "specTokens [] = []"
| "specTokens (c # cs) =
     (if isSeparator c then specTokens cs
      else (c # takeWhile (\<lambda>d. \<not> isSeparator d) cs) #
           specTokens (dropWhile (\<lambda>d. \<not> isSeparator d) cs))"
  by pat_completeness auto
termination
  by (relation "measure length") (auto simp: length_dropWhile_le less_Suc_eq_le)

definition specInitials :: "platform \<Rightarrow> jsstring \<Rightarrow> jsstring" where
  "specInitials P text =
     (let t = trim text in
      if t = [] then js ''?''
      else (case specTokens t of
              [] \<Rightarrow> toUpperCase P []
            | [a] \<Rightarrow> toUpperCase P (take 1 a)
            | a # b # rest \<Rightarrow> toUpperCase P (take 1 a @ take 1 b)))"

text \<open>
  The sequence a parsed body offers, in the specification's words: the value itself when it
  is an array, the field \<open>apps\<close> when the value is an object whose field \<open>apps\<close> is an
  array, and none otherwise.
\<close>

definition specSequence :: "'a json \<Rightarrow> 'a list option" where
  "specSequence data =
     (case data of
        JArr xs \<Rightarrow> Some xs
      | JObj props \<Rightarrow> (case map_of props (js ''apps'') of Some (JArr xs) \<Rightarrow> Some xs | _ \<Rightarrow> None)
      | _ \<Rightarrow> None)"

text \<open>\<open>needle\<close> occurs in \<open>hay\<close> as a contiguous run.\<close>

definition specSubstring :: "jsstring \<Rightarrow> jsstring \<Rightarrow> bool" where
  "specSubstring needle hay \<longleftrightarrow> (\<exists>pre post. hay = pre @ needle @ post)"

text \<open>
  The catalog of the specification's end-to-end scenarios, under the program's root domain.
\<close>

definition STUDIO_APP :: AppItem where
  "STUDIO_APP =
     \<lparr>title = js ''Studio'', url = js ''https://studio.huny.dev'', description = None,
      category = Some (js ''Portal''), thumbnail = None\<rparr>"

definition DOCS_APP :: AppItem where
  "DOCS_APP =
     \<lparr>title = js ''Docs'', url = js ''https://docs.huny.dev'', description = None,
      category = None, thumbnail = None\<rparr>"

definition SCENARIO_APPS :: "AppItem list" where
  "SCENARIO_APPS = [STUDIO_APP, DOCS_APP]"

text \<open>A catalog in which two spellings of one category differ in case only.\<close>

definition ALPHA_APP :: AppItem where
  "ALPHA_APP =
     \<lparr>title = js ''Alpha'', url = js ''https://alpha.huny.dev'', description = None,
      category = Some (js ''tools''), thumbnail = None\<rparr>"

definition BETA_APP :: AppItem where
  "BETA_APP =
     \<lparr>title = js ''Beta'', url = js ''https://beta.huny.dev'', description = None,
      category = Some (js ''Tools''), thumbnail = None\<rparr>"

definition GAMMA_APP :: AppItem where
  "GAMMA_APP =
     \<lparr>title = js ''Gamma'', url = js ''https://gamma.huny.dev'', description = None,
      category = Some (js ''tools''), thumbnail = None\<rparr>"

definition CASE_APPS :: "AppItem list" where
  "CASE_APPS = [ALPHA_APP, BETA_APP, GAMMA_APP]"

text \<open>
  The plain comparison of category keys agrees with the sort by category then name on a set
  of records: wherever two records with different category keys are compared and the first
  is not placed after the second, the first record's key is strictly before the second's
  in the plain comparison.
\<close>

definition keysAgree :: "platform \<Rightarrow> AppItem set \<Rightarrow> bool" where
  "keysAgree P A \<longleftrightarrow>
     (\<forall>a\<in>A. \<forall>b\<in>A.
        categoryKey a \<noteq> categoryKey b \<longrightarrow> categoryCompare P a b \<le> 0 \<longrightarrow>
        localeCompare P (categoryKey a) (categoryKey b) \<le> 0 \<and>
        \<not> localeCompare P (categoryKey b) (categoryKey a) \<le> 0)"

section \<open>Strings\<close>

lemma js_simps:
  "js [] = []" "js (c # cs) = of_char c # js cs"
  by (simp_all add: js_def)

lemma ROOT_DOMAIN_units: "ROOT_DOMAIN = [104, 117, 110, 121, 46, 100, 101, 118]"
  by (simp add: ROOT_DOMAIN_def js_def)

lemma splitFrom_not_Nil: "splitFrom sep piece cs \<noteq> []"
  by (induction cs arbitrary: piece) auto

lemma length_splitFrom: "length (splitFrom sep piece cs) = Suc (count_list cs sep)"
  by (induction cs arbitrary: piece) auto

lemma hd_splitFrom: "hd (splitFrom sep piece cs) = rev piece @ takeWhile (\<lambda>c. c \<noteq> sep) cs"
  by (induction cs arbitrary: piece) auto

lemma length_split: "length (split sep s) = Suc (count_list s sep)"
  by (simp add: split_def length_splitFrom)

lemma split_nth_0: "split sep s ! 0 = takeWhile (\<lambda>c. c \<noteq> sep) s"
proof -
  have "split sep s ! 0 = hd (split sep s)"
    by (simp add: split_def hd_conv_nth splitFrom_not_Nil)
  then show ?thesis by (simp add: split_def hd_splitFrom)
qed

lemma getSubdomainForSort_host:
  "getSubdomainForSort P u =
     (let host = getHostname P u in
      if endsWith host ROOT_DOMAIN \<and> 3 \<le> specLabelCount host then specFirstLabel host else host)"
  by (simp add: getSubdomainForSort_def Let_def length_split split_nth_0 specLabelCount_def
      specFirstLabel_def)

lemma endsWith_append: "endsWith (xs @ suffix) suffix"
  by (simp add: endsWith_def)

lemma endsWith_refl: "endsWith s s"
  by (simp add: endsWith_def)

lemma count_dots_ROOT: "count_list ROOT_DOMAIN 0x2E = 1"
  by (simp add: ROOT_DOMAIN_units)

section \<open>URL and host utilities: the sort key\<close>

text \<open>
  What the code computes for a URL that parses: the first dot-separated label of the
  hostname when the hostname ends, code unit by code unit, with \<open>huny.dev\<close> and has at
  least three dot-separated labels, and the full hostname otherwise. For a host made of one
  label, a dot and the root domain that is the label, and for the apex it is the full host;
  these are the program's own dev tests.
\<close>

lemma sortKey_suffix_rule:
  assumes "urlHostname P u = Some host"
  shows "getSubdomainForSort P u =
           (if endsWith host ROOT_DOMAIN \<and> 3 \<le> specLabelCount host
            then specFirstLabel host else host) \<and>
         (\<forall>label. host = label @ [0x2E] @ ROOT_DOMAIN \<and> 0x2E \<notin> set label \<longrightarrow>
            getSubdomainForSort P u = label) \<and>
         (host = ROOT_DOMAIN \<longrightarrow> getSubdomainForSort P u = ROOT_DOMAIN)"
proof -
  have host: "getHostname P u = host"
    using assms by (simp add: getHostname_def)
  have general: "getSubdomainForSort P u =
      (if endsWith host ROOT_DOMAIN \<and> 3 \<le> specLabelCount host then specFirstLabel host else host)"
    using host by (simp add: getSubdomainForSort_host)
  have sub: "getSubdomainForSort P u = label"
    if "host = label @ [0x2E] @ ROOT_DOMAIN" and "0x2E \<notin> set label" for label
  proof -
    have e: "endsWith host ROOT_DOMAIN"
      using that(1) endsWith_append [of "label @ [0x2E]" ROOT_DOMAIN] by simp
    have "count_list label 0x2E = 0"
      using that(2) by (simp add: count_list_0_iff)
    then have n: "specLabelCount host = 3"
      using that(1) by (simp add: specLabelCount_def count_dots_ROOT)
    have f: "specFirstLabel host = label"
      using that by (simp add: specFirstLabel_def takeWhile_append)
    show ?thesis using general e n f by simp
  qed
  have apex: "getSubdomainForSort P u = ROOT_DOMAIN" if "host = ROOT_DOMAIN"
    using general that by (simp add: specLabelCount_def count_dots_ROOT)
  show ?thesis using general sub apex by blast
qed

lemma refHostname_studio:
  "refHostname (js ''https://studio.huny.dev'') = Some (js ''studio.huny.dev'')"
  by (simp add: refHostname_def js_def startsWith_def isHostUnit_def isAsciiUpper_def
      isAsciiLower_def asciiLower_def)

lemma refHostname_apex:
  "refHostname (js ''https://huny.dev'') = Some (js ''huny.dev'')"
  by (simp add: refHostname_def js_def startsWith_def isHostUnit_def isAsciiUpper_def
      isAsciiLower_def asciiLower_def)

lemma sortKey_dev_tests:
  "urlHostname refPlatform (js ''https://studio.huny.dev'') = Some (js ''studio.huny.dev'') \<and>
   getSubdomainForSort refPlatform (js ''https://studio.huny.dev'') = js ''studio'' \<and>
   urlHostname refPlatform (js ''https://huny.dev'') = Some (js ''huny.dev'') \<and>
   getSubdomainForSort refPlatform (js ''https://huny.dev'') = js ''huny.dev''"
proof -
  have h1: "urlHostname refPlatform (js ''https://studio.huny.dev'') = Some (js ''studio.huny.dev'')"
    by (simp add: refPlatform_def refHostname_studio)
  have h2: "urlHostname refPlatform (js ''https://huny.dev'') = Some (js ''huny.dev'')"
    by (simp add: refPlatform_def refHostname_apex)
  have d: "js ''studio.huny.dev'' = js ''studio'' @ [0x2E] @ ROOT_DOMAIN" "0x2E \<notin> set (js ''studio'')"
    by (simp_all add: js_def ROOT_DOMAIN_def)
  have r: "js ''huny.dev'' = ROOT_DOMAIN" by (simp add: ROOT_DOMAIN_def)
  from sortKey_suffix_rule [OF h1] d have "getSubdomainForSort refPlatform (js ''https://studio.huny.dev'') = js ''studio''"
    by blast
  moreover have "getSubdomainForSort refPlatform (js ''https://huny.dev'') = js ''huny.dev''"
    using sortKey_suffix_rule [OF h2, THEN conjunct2, THEN conjunct2] by (simp add: r)
  ultimately show ?thesis using h1 h2 by simp
qed

lemma refHostname_foreign:
  "refHostname (js ''https://x.nothuny.dev'') = Some (js ''x.nothuny.dev'')"
  by (simp add: refHostname_def js_def startsWith_def isHostUnit_def isAsciiUpper_def
      isAsciiLower_def asciiLower_def)

text \<open>
  On every platform whose parser gives the host \<open>x.nothuny.dev\<close>, the sort key is \<open>x\<close>.
\<close>

lemma sortKey_foreign_host_any_platform:
  assumes "urlHostname P u = Some (js ''x.nothuny.dev'')"
  shows "getSubdomainForSort P u = js ''x''"
proof -
  have "getHostname P u = js ''x.nothuny.dev''"
    using assms by (simp add: getHostname_def)
  then show ?thesis
    unfolding getSubdomainForSort_def
    by (simp add: ROOT_DOMAIN_def endsWith_def split_def js_def)
qed

text \<open>
  Claim C3 says that for every URL string that parses the sort key is the first label when
  the hostname ends with the root domain suffix and has at least three labels, and the
  full hostname otherwise, foreign domains being in the second case, as the source's own
  comment has it (external domains use the whole host). The code breaks this: it tests
  the suffix by code units and not by labels. The host \<open>x.nothuny.dev\<close> is foreign: it is
  not the apex \<open>huny.dev\<close> and does not end with \<open>.huny.dev\<close>. It ends with the code
  units \<open>huny.dev\<close> and has three labels, and the code returns \<open>x\<close>, not the full host.
\<close>

theorem sortKey_foreign_host:
  "urlHostname refPlatform (js ''https://x.nothuny.dev'') = Some (js ''x.nothuny.dev'') \<and>
   js ''x.nothuny.dev'' \<noteq> ROOT_DOMAIN \<and>
   \<not> endsWith (js ''x.nothuny.dev'') ([0x2E] @ ROOT_DOMAIN) \<and>
   getSubdomainForSort refPlatform (js ''https://x.nothuny.dev'') = js ''x'' \<and>
   getSubdomainForSort refPlatform (js ''https://x.nothuny.dev'') \<noteq> js ''x.nothuny.dev''"
proof -
  have p: "urlHostname refPlatform (js ''https://x.nothuny.dev'') = Some (js ''x.nothuny.dev'')"
    by (simp add: refPlatform_def refHostname_foreign)
  have k: "getSubdomainForSort refPlatform (js ''https://x.nothuny.dev'') = js ''x''"
    using p by (rule sortKey_foreign_host_any_platform)
  have a: "js ''x.nothuny.dev'' \<noteq> ROOT_DOMAIN"
    by (simp add: ROOT_DOMAIN_def js_def)
  have f: "\<not> endsWith (js ''x.nothuny.dev'') ([0x2E] @ ROOT_DOMAIN)"
    by (simp add: ROOT_DOMAIN_def endsWith_def js_def)
  have n: "js ''x'' \<noteq> js ''x.nothuny.dev''"
    by (simp add: js_def)
  show ?thesis unfolding k using p a f n by simp
qed






section \<open>Placeholder identity utilities: the seeded colour\<close>

lemma hashStep_word: "hashStep (unat w) c = unat (w * 31 + ucast c :: 32 word)"
proof -
  have "unat c < 2 ^ 16"
    using unsigned_less [of c, where 'a = nat] by simp
  then have "unat c < 2 ^ 32" by simp
  then have "unat (ucast c :: 32 word) = unat c"
    by (simp add: unsigned_ucast_eq take_bit_nat_eq_self)
  then show ?thesis
    by (simp add: hashStep_def unat_word_ariths mod_add_eq mod_mult_left_eq mod_simps)
qed

lemma foldl_hashStep_word:
  "foldl hashStep (unat w) s = unat (foldl (\<lambda>hash c. hash * 31 + ucast c) (w :: 32 word) s)"
proof (induction s arbitrary: w)
  case Nil
  show ?case by simp
next
  case (Cons c s)
  show ?case using Cons.IH [of "w * 31 + ucast c"] by (simp add: hashStep_word)
qed

lemma hashOf_specHash: "hashOf s = unat (specHash s)"
  using foldl_hashStep_word [of 0 s] by (simp add: hashOf_def specHash_def)

lemma hashStep_exact: "h < 2 ^ 32 \<Longrightarrow> h * 31 + unat (c :: code_unit) < 2 ^ 53"
proof -
  assume "h < 2 ^ 32"
  moreover have "unat c < 2 ^ 16"
    using unsigned_less [of c, where 'a = nat] by simp
  ultimately show ?thesis by simp
qed

text \<open>
  Claim C9. For every seed, the hue is the 32-bit unsigned hash (from 0, each code unit
  accumulated as \<open>hash * 31 + charCode\<close> modulo \<open>2 ^ 32\<close>) modulo 360, hence below
  360, and saturation and lightness are 65 and 50. \<open>hashToHsl\<close> is a function of the seed
  alone, so equal seeds give equal tuples.
\<close>

theorem hashToHsl_spec:
  "hsl_h (hashToHsl s) = unat (specHash s) mod 360 \<and>
   hsl_h (hashToHsl s) < 360 \<and>
   hsl_s (hashToHsl s) = 65 \<and>
   hsl_l (hashToHsl s) = 50"
  by (simp add: hashToHsl_def hashOf_specHash)

theorem hashToHsl_spec_witness:
  "unat (specHash (js ''test'')) mod 360 = 58 \<and> hsl_h (hashToHsl (js ''test'')) = 58"
proof -
  have "hsl_h (hashToHsl (js ''test'')) = 58"
    by (simp add: hashToHsl_def hashOf_def hashStep_def js_def)
  then show ?thesis using hashToHsl_spec [of "js ''test''"] by simp
qed

section \<open>Placeholder identity utilities: the initials\<close>

lemma specTokens_skip:
  "(\<And>c. Q c \<Longrightarrow> isSeparator c) \<Longrightarrow> specTokens (dropWhile Q cs) = specTokens cs"
  by (induction cs) auto

lemma specTokens_unfold:
  "specTokens cs =
     filter (\<lambda>p. p \<noteq> []) [takeWhile (\<lambda>d. \<not> isSeparator d) cs] @
     specTokens (dropWhile (\<lambda>d. \<not> isSeparator d) cs)"
  by (cases cs) auto

lemma splitSeparators_tokens:
  "filter (\<lambda>p. p \<noteq> []) (splitSeparators piece cs) =
     filter (\<lambda>p. p \<noteq> []) [rev piece @ takeWhile (\<lambda>d. \<not> isSeparator d) cs] @
     specTokens (dropWhile (\<lambda>d. \<not> isSeparator d) cs)"
proof (induction piece cs rule: splitSeparators.induct)
  case (1 piece)
  show ?case by simp
next
  case (2 piece c cs)
  show ?case
  proof (cases "isWhiteSpace c")
    case True
    have "specTokens (dropWhile isWhiteSpace cs) = specTokens cs"
      by (rule specTokens_skip) (simp add: isSeparator_def)
    then show ?thesis
      using True 2(1) [OF True] specTokens_unfold [of "dropWhile isWhiteSpace cs"]
      by (simp add: isSeparator_def)
  next
    case False
    show ?thesis
    proof (cases "c = 0x2E \<or> c = 0x2D")
      case True
      then show ?thesis
        using False 2(2) [OF False True] specTokens_unfold [of cs]
        by (auto simp add: isSeparator_def)
    next
      case ndot: False
      then show ?thesis
        using False 2(3) [OF False ndot] by (simp add: isSeparator_def)
    qed
  qed
qed

lemma tokens_eq: "filter (\<lambda>p. p \<noteq> []) (splitSeparators [] t) = specTokens t"
  using splitSeparators_tokens [of "[]" t] specTokens_unfold [of t] by simp

lemma specTokens_nonempty: "p \<in> set (specTokens cs) \<Longrightarrow> p \<noteq> []"
  by (induction cs rule: specTokens.induct) (auto split: if_splits)

lemma initialsFrom_tokens:
  "initialsFrom P text =
     (let t = trim text in
      if t = [] then js ''?''
      else toUpperCase P (firstOf (specTokens t) 0 @ firstOf (specTokens t) 1))"
  by (simp add: initialsFrom_def Let_def tokens_eq)

lemma specInitials_tokens:
  "specInitials P text =
     (let t = trim text in
      if t = [] then js ''?''
      else toUpperCase P (firstOf (specTokens t) 0 @ firstOf (specTokens t) 1))"
  by (auto simp add: specInitials_def Let_def firstOf_def split: list.splits)

lemma refUpper_Nil: "toUpperCase refPlatform [] = []"
  by (simp add: refPlatform_def)

lemma initials_Voice_Conversion:
  "initialsFrom refPlatform (js ''Voice Conversion'') = js ''VC''"
  by (simp add: initialsFrom_def trim_def js_def isWhiteSpace_def firstOf_def refPlatform_def
      asciiUpper_def isAsciiLower_def)

lemma initials_Studio: "initialsFrom refPlatform (js ''Studio'') = js ''S''"
  by (simp add: initialsFrom_def trim_def js_def isWhiteSpace_def firstOf_def refPlatform_def
      asciiUpper_def isAsciiLower_def)

lemma initials_empty: "initialsFrom P [] = js ''?''"
  by (simp add: initialsFrom_def trim_def)

text \<open>
  Claim C8. For every string, the initials are: \<open>?\<close> when the trimmed string is empty;
  otherwise the upper-cased concatenation of the first code unit of the first token and
  the first code unit of the second token if there is one, the tokens being what remains
  after splitting at white space, \<open>.\<close> and \<open>-\<close> and dropping empty pieces. In particular
  the initials of \<open>Voice Conversion\<close>, \<open>Studio\<close> and the empty string are \<open>VC\<close>, \<open>S\<close>
  and \<open>?\<close>.
\<close>

theorem initialsFrom_spec:
  "initialsFrom P text = specInitials P text \<and>
   initialsFrom refPlatform (js ''Voice Conversion'') = js ''VC'' \<and>
   initialsFrom refPlatform (js ''Studio'') = js ''S'' \<and>
   initialsFrom P [] = js ''?''"
proof -
  have "initialsFrom P text = specInitials P text"
    by (simp add: initialsFrom_tokens specInitials_tokens)
  then show ?thesis
    using initials_Voice_Conversion initials_Studio initials_empty [of P] by blast
qed

theorem initialsFrom_spec_witness:
  "specInitials refPlatform (js ''TTS Lab'') = js ''TL'' \<and>
   initialsFrom refPlatform (js ''TTS Lab'') = js ''TL''"
proof -
  have "specInitials refPlatform (js ''TTS Lab'') = js ''TL''"
    by (simp add: specInitials_def trim_def js_def isWhiteSpace_def isSeparator_def
        refPlatform_def asciiUpper_def isAsciiLower_def)
  then show ?thesis
    using initialsFrom_spec [of refPlatform "js ''TTS Lab''"] by simp
qed

lemma specTokens_separators:
  "\<forall>c\<in>set cs. isSeparator c \<Longrightarrow> specTokens cs = []"
  by (induction cs) auto

lemma initials_no_tokens:
  assumes "\<forall>c\<in>set text. isSeparator c" and "trim text \<noteq> []" and "toUpperCase P [] = []"
  shows "initialsFrom P text = []"
proof -
  have "set (trim text) \<subseteq> set text"
    by (auto simp: trim_def dest!: set_dropWhileD)
  then have "\<forall>c\<in>set (trim text). isSeparator c" using assms(1) by blast
  then have "specTokens (trim text) = []" by (rule specTokens_separators)
  then show ?thesis
    using assms(2,3) by (simp add: initialsFrom_tokens firstOf_def)
qed

text \<open>
  Claim C10. Some non-empty inputs made of separator characters only give the empty string
  and not \<open>?\<close>: \<open>.\<close>, \<open>...\<close> and \<open>- -\<close> do, and so does every text of separators only
  whose trimmed form is not empty, since no token remains. The engine's upper-casing of
  the empty string is the empty string.
\<close>

theorem initials_of_separators:
  assumes "toUpperCase P [] = []"
  shows "initialsFrom P (js ''.'') = [] \<and>
         initialsFrom P (js ''...'') = [] \<and>
         initialsFrom P (js ''- -'') = [] \<and>
         (\<forall>text. (\<forall>c\<in>set text. isSeparator c) \<and> trim text \<noteq> [] \<longrightarrow>
            initialsFrom P text = [])"
proof -
  have general: "initialsFrom P t = []"
    if "\<forall>c\<in>set t. isSeparator c" and "trim t \<noteq> []" for t
    using that assms by (rule initials_no_tokens)
  have "initialsFrom P (js ''.'') = []"
    by (rule general) (simp_all add: js_def isSeparator_def trim_def isWhiteSpace_def)
  moreover have "initialsFrom P (js ''...'') = []"
    by (rule general) (simp_all add: js_def isSeparator_def trim_def isWhiteSpace_def)
  moreover have "initialsFrom P (js ''- -'') = []"
    by (rule general) (simp_all add: js_def isSeparator_def trim_def isWhiteSpace_def)
  ultimately show ?thesis using general by blast
qed

theorem initials_of_separators_witness:
  "toUpperCase refPlatform [] = [] \<and>
   initialsFrom refPlatform (js ''.'') = [] \<and>
   initialsFrom refPlatform (js ''...'') = [] \<and>
   initialsFrom refPlatform (js ''- -'') = [] \<and>
   initialsFrom refPlatform (js ''. -'') = []"
proof -
  have sep: "\<forall>c\<in>set (js ''. -''). isSeparator c"
    by (simp add: js_def isSeparator_def isWhiteSpace_def)
  have tr: "trim (js ''. -'') \<noteq> []"
    by (simp add: js_def trim_def isWhiteSpace_def)
  show ?thesis
    using initials_of_separators [OF refUpper_Nil] sep tr refUpper_Nil by blast
qed

section \<open>The catalog loader\<close>

lemma listOf_specSequence:
  "listOf data = (case specSequence data of Some xs \<Rightarrow> xs | None \<Rightarrow> [])"
  by (simp add: listOf_def specSequence_def split: json.splits option.splits)

lemma tryLoad_success:
  "specSequence data = Some xs \<Longrightarrow> xs \<noteq> [] \<Longrightarrow> tryLoad (Response True (Some data)) = Some xs"
  by (simp add: tryLoad_def listOf_specSequence)

lemma tryLoad_failure:
  "tryLoad NetworkError = None"
  "tryLoad (Response False body) = None"
  "tryLoad (Response True None) = None"
  "specSequence data = None \<Longrightarrow> tryLoad (Response True (Some data)) = None"
  "specSequence data = Some [] \<Longrightarrow> tryLoad (Response True (Some data)) = None"
  by (simp_all add: tryLoad_def listOf_specSequence)

lemma tryLoad_cases:
  "tryLoad f = None \<or> (\<exists>xs. xs \<noteq> [] \<and> tryLoad f = Some xs)"
  by (auto simp add: tryLoad_def Let_def split: fetched.splits option.splits)

text \<open>
  Claim C4. Loading never fails outward: while the component is alive, the loader leaves
  one of two states. When the response is OK, its body parses, the parsed value is an array
  or an object with an array field \<open>apps\<close>, and that sequence is not empty, the catalog is
  that sequence and no error is surfaced. On a network error, a status that is not OK, a
  body that does not parse, a value of another shape, or an empty sequence, the catalog is
  the built-in fallback and the advisory message is surfaced.
\<close>

theorem loadEffect_spec:
  assumes "\<not> cancelled"
  shows "(f = Response True (Some data) \<and> specSequence data = Some xs \<and> xs \<noteq> [] \<longrightarrow>
            loadEffect cancelled f st = st\<lparr>st_apps := Some xs, st_loadError := None\<rparr>) \<and>
         (f = NetworkError \<or> (\<exists>body. f = Response False body) \<or> f = Response True None \<or>
          (\<exists>d. f = Response True (Some d) \<and> (specSequence d = None \<or> specSequence d = Some []))
            \<longrightarrow> loadEffect cancelled f st =
                  st\<lparr>st_apps := Some FALLBACK_APPS, st_loadError := Some LOAD_ERROR_MESSAGE\<rparr>) \<and>
         ((\<exists>ys. ys \<noteq> [] \<and> loadEffect cancelled f st = st\<lparr>st_apps := Some ys, st_loadError := None\<rparr>) \<or>
          loadEffect cancelled f st =
            st\<lparr>st_apps := Some FALLBACK_APPS, st_loadError := Some LOAD_ERROR_MESSAGE\<rparr>)"
proof -
  have ok: "loadEffect cancelled f st = st\<lparr>st_apps := Some ys, st_loadError := None\<rparr>"
    if "tryLoad f = Some ys" for ys
    using that assms by (simp add: loadEffect_def)
  have ko: "loadEffect cancelled f st =
      st\<lparr>st_apps := Some FALLBACK_APPS, st_loadError := Some LOAD_ERROR_MESSAGE\<rparr>"
    if "tryLoad f = None"
    using that assms by (simp add: loadEffect_def)
  have 1: "f = Response True (Some data) \<and> specSequence data = Some xs \<and> xs \<noteq> [] \<longrightarrow>
      loadEffect cancelled f st = st\<lparr>st_apps := Some xs, st_loadError := None\<rparr>"
    using ok tryLoad_success by blast
  have 2: "f = NetworkError \<or> (\<exists>body. f = Response False body) \<or> f = Response True None \<or>
      (\<exists>d. f = Response True (Some d) \<and> (specSequence d = None \<or> specSequence d = Some []))
      \<longrightarrow> loadEffect cancelled f st =
            st\<lparr>st_apps := Some FALLBACK_APPS, st_loadError := Some LOAD_ERROR_MESSAGE\<rparr>"
  proof
    assume "f = NetworkError \<or> (\<exists>body. f = Response False body) \<or> f = Response True None \<or>
      (\<exists>d. f = Response True (Some d) \<and> (specSequence d = None \<or> specSequence d = Some []))"
    then have "tryLoad f = None"
      by (auto simp add: tryLoad_failure)
    then show "loadEffect cancelled f st =
        st\<lparr>st_apps := Some FALLBACK_APPS, st_loadError := Some LOAD_ERROR_MESSAGE\<rparr>"
      by (rule ko)
  qed
  have 3: "(\<exists>ys. ys \<noteq> [] \<and> loadEffect cancelled f st = st\<lparr>st_apps := Some ys, st_loadError := None\<rparr>) \<or>
      loadEffect cancelled f st =
        st\<lparr>st_apps := Some FALLBACK_APPS, st_loadError := Some LOAD_ERROR_MESSAGE\<rparr>"
  proof (cases "tryLoad f")
    case None
    then show ?thesis using ko by simp
  next
    case (Some ys)
    then have "ys \<noteq> []" using tryLoad_cases [of f] by simp
    then show ?thesis using ok [OF Some] by blast
  qed
  show ?thesis using 1 2 3 by (intro conjI)
qed

theorem loadEffect_spec_witness:
  "loadEffect False (Response True (Some (JObj [(js ''apps'', JArr SCENARIO_APPS)])))
      \<lparr>st_apps = None, st_loadError = None\<rparr> =
     \<lparr>st_apps = Some SCENARIO_APPS, st_loadError = None\<rparr> \<and>
   loadEffect False (Response True (Some (JArr SCENARIO_APPS)))
      \<lparr>st_apps = None, st_loadError = None\<rparr> =
     \<lparr>st_apps = Some SCENARIO_APPS, st_loadError = None\<rparr> \<and>
   loadEffect False (Response True (Some (JObj [(js ''items'', JArr SCENARIO_APPS)])))
      \<lparr>st_apps = None, st_loadError = None\<rparr> =
     \<lparr>st_apps = Some FALLBACK_APPS, st_loadError = Some LOAD_ERROR_MESSAGE\<rparr> \<and>
   loadEffect False NetworkError \<lparr>st_apps = None, st_loadError = None\<rparr> =
     \<lparr>st_apps = Some FALLBACK_APPS, st_loadError = Some LOAD_ERROR_MESSAGE\<rparr>"
proof -
  let ?S = "\<lparr>st_apps = None, st_loadError = None\<rparr>"
  have n: "\<not> False" by simp
  have ne: "SCENARIO_APPS \<noteq> []" by (simp add: SCENARIO_APPS_def)
  have s1: "specSequence (JObj [(js ''apps'', JArr SCENARIO_APPS)]) = Some SCENARIO_APPS"
    by (simp add: specSequence_def)
  have s2: "specSequence (JArr SCENARIO_APPS) = Some SCENARIO_APPS"
    by (simp add: specSequence_def)
  have s3: "specSequence (JObj [(js ''items'', JArr SCENARIO_APPS)]) = None"
    by (simp add: specSequence_def js_def)
  have c1: "loadEffect False (Response True (Some (JObj [(js ''apps'', JArr SCENARIO_APPS)]))) ?S =
      ?S\<lparr>st_apps := Some SCENARIO_APPS, st_loadError := None\<rparr>"
    using loadEffect_spec [OF n, THEN conjunct1] s1 ne by blast
  have c2: "loadEffect False (Response True (Some (JArr SCENARIO_APPS))) ?S =
      ?S\<lparr>st_apps := Some SCENARIO_APPS, st_loadError := None\<rparr>"
    using loadEffect_spec [OF n, THEN conjunct1] s2 ne by blast
  have c3: "loadEffect False (Response True (Some (JObj [(js ''items'', JArr SCENARIO_APPS)]))) ?S =
      ?S\<lparr>st_apps := Some FALLBACK_APPS, st_loadError := Some LOAD_ERROR_MESSAGE\<rparr>"
    using loadEffect_spec [OF n, THEN conjunct2, THEN conjunct1] s3 by blast
  have c4: "loadEffect False NetworkError ?S =
      ?S\<lparr>st_apps := Some FALLBACK_APPS, st_loadError := Some LOAD_ERROR_MESSAGE\<rparr>"
    using loadEffect_spec [OF n, THEN conjunct2, THEN conjunct1] by blast
  show ?thesis
    unfolding c1 c2 c3 c4 by simp
qed

text \<open>After teardown the loader writes nothing but the cleared error of its start.\<close>

lemma loadEffect_cancelled: "loadEffect True f st = st\<lparr>st_loadError := None\<rparr>"
  by (simp add: loadEffect_def Let_def split: option.splits)

section \<open>The catalog pipeline: filtering\<close>

lemma startsWith_iff: "startsWith s p \<longleftrightarrow> (\<exists>post. s = p @ post)"
proof
  assume "startsWith s p"
  then have "s = p @ drop (length p) s"
    by (metis append_take_drop_id startsWith_def)
  then show "\<exists>post. s = p @ post" ..
next
  assume "\<exists>post. s = p @ post"
  then show "startsWith s p" by (auto simp: startsWith_def)
qed

lemma includesStr_iff: "includesStr hay needle \<longleftrightarrow> specSubstring needle hay"
proof (induction hay)
  case Nil
  show ?case by (auto simp: specSubstring_def)
next
  case (Cons c cs)
  have "specSubstring needle (c # cs) \<longleftrightarrow>
      (\<exists>post. c # cs = needle @ post) \<or> specSubstring needle cs"
  proof
    assume "specSubstring needle (c # cs)"
    then obtain pre post where e: "c # cs = pre @ needle @ post"
      by (auto simp: specSubstring_def)
    show "(\<exists>post. c # cs = needle @ post) \<or> specSubstring needle cs"
    proof (cases pre)
      case Nil
      then show ?thesis using e by auto
    next
      case (Cons d pre')
      then have "cs = pre' @ needle @ post" using e by simp
      then show ?thesis by (auto simp: specSubstring_def)
    qed
  next
    assume "(\<exists>post. c # cs = needle @ post) \<or> specSubstring needle cs"
    then show "specSubstring needle (c # cs)"
    proof
      assume "\<exists>post. c # cs = needle @ post"
      then obtain post where "c # cs = [] @ needle @ post" by auto
      then show ?thesis unfolding specSubstring_def by blast
    next
      assume "specSubstring needle cs"
      then obtain pre post where "cs = pre @ needle @ post"
        by (auto simp: specSubstring_def)
      then have "c # cs = (c # pre) @ needle @ post" by simp
      then show ?thesis unfolding specSubstring_def by blast
    qed
  qed
  then show ?case using Cons.IH by (simp add: startsWith_iff)
qed

lemma includesStr_Nil: "includesStr hay []"
proof -
  have "hay = [] @ [] @ hay" by simp
  then have "specSubstring [] hay" unfolding specSubstring_def by blast
  then show ?thesis by (simp add: includesStr_iff)
qed

lemma passQuery_iff:
  assumes "toLowerCase P [] = []"
  shows "passQuery P query a \<longleftrightarrow>
         trim query = [] \<or> specSubstring (toLowerCase P (trim query)) (haystack P a)"
proof (cases "trim query = []")
  case True
  then show ?thesis using assms by (simp add: passQuery_def)
next
  case False
  then show ?thesis
    using includesStr_Nil by (auto simp add: passQuery_def Let_def includesStr_iff)
qed

lemma passCat_iff:
  "passCat P cat a \<longleftrightarrow>
     cat = ALL_CATEGORIES \<or> toLowerCase P (categoryKey a) = toLowerCase P cat"
  by (simp add: passCat_def)

text \<open>
  Claim C5. A record is in the filtered sequence if and only if it is in the catalog and
  passes both predicates: the trimmed query is empty or occurs, case-folded, in the
  case-folded combination of title, description (empty when absent), raw URL, hostname and
  sort key (the five joined by line feeds); and the category filter is the sentinel or is
  equal, case-folded, to the case-folded category key (the category, or the uncategorized
  sentinel when absent). The engine's lower-casing of the empty string is the empty string.
\<close>

theorem filtered_spec:
  assumes "toLowerCase P [] = []"
  shows "a \<in> set (filtered P apps query cat) \<longleftrightarrow>
         a \<in> set (catalogOf apps) \<and>
         (trim query = [] \<or>
          specSubstring (toLowerCase P (trim query))
            (toLowerCase P
               (join [0xA]
                  [title a, (case description a of Some d \<Rightarrow> d | None \<Rightarrow> []), url a,
                   getHostname P (url a), getSubdomainForSort P (url a)]))) \<and>
         (cat = ALL_CATEGORIES \<or>
          toLowerCase P (case category a of Some c \<Rightarrow> c | None \<Rightarrow> UNCATEGORIZED) =
          toLowerCase P cat)"
proof -
  have "a \<in> set (filtered P apps query cat) \<longleftrightarrow>
      a \<in> set (catalogOf apps) \<and> passQuery P query a \<and> passCat P cat a"
    by (auto simp add: filtered_def)
  then show ?thesis
    by (simp add: passQuery_iff [OF assms] passCat_iff haystack_def categoryKey_def)
qed

lemma refLower_Nil: "toLowerCase refPlatform [] = []"
  by (simp add: refPlatform_def)

lemma studio_host: "getHostname refPlatform (js ''https://studio.huny.dev'') = js ''studio.huny.dev''"
  by (simp add: getHostname_def refPlatform_def refHostname_studio)

lemma studio_sub: "getSubdomainForSort refPlatform (js ''https://studio.huny.dev'') = js ''studio''"
  unfolding getSubdomainForSort_def studio_host
  by (simp add: ROOT_DOMAIN_def endsWith_def split_def js_def)

lemma refHostname_docs:
  "refHostname (js ''https://docs.huny.dev'') = Some (js ''docs.huny.dev'')"
  by (simp add: refHostname_def js_def startsWith_def isHostUnit_def isAsciiUpper_def
      isAsciiLower_def asciiLower_def)

lemma docs_host: "getHostname refPlatform (js ''https://docs.huny.dev'') = js ''docs.huny.dev''"
  by (simp add: getHostname_def refPlatform_def refHostname_docs)

lemma docs_sub: "getSubdomainForSort refPlatform (js ''https://docs.huny.dev'') = js ''docs''"
  unfolding getSubdomainForSort_def docs_host
  by (simp add: ROOT_DOMAIN_def endsWith_def split_def js_def)

lemma query_STUDIO: "toLowerCase refPlatform (trim (js ''  STUDIO '')) = js ''studio''"
  by (simp add: refPlatform_def trim_def js_def isWhiteSpace_def asciiLower_def isAsciiUpper_def)

lemma filtered_STUDIO:
  "filtered refPlatform (Some SCENARIO_APPS) (js ''  STUDIO '') ALL_CATEGORIES = [STUDIO_APP]"
  unfolding filtered_def catalogOf_def passQuery_def query_STUDIO haystack_def SCENARIO_APPS_def
    STUDIO_APP_def DOCS_APP_def
  apply (simp add: studio_host studio_sub docs_host docs_sub passCat_def)
  apply (simp add: refPlatform_def js_def asciiLower_def isAsciiUpper_def startsWith_def)
  done

theorem filtered_spec_witness:
  "toLowerCase refPlatform [] = [] \<and>
   STUDIO_APP \<in> set (filtered refPlatform (Some SCENARIO_APPS) (js ''  STUDIO '') ALL_CATEGORIES) \<and>
   specSubstring (js ''studio'') (haystack refPlatform (STUDIO_APP)) \<and>
   DOCS_APP \<notin> set (filtered refPlatform (Some SCENARIO_APPS) (js ''  STUDIO '') ALL_CATEGORIES)"
proof -
  have inside: "STUDIO_APP \<in>
      set (filtered refPlatform (Some SCENARIO_APPS) (js ''  STUDIO '') ALL_CATEGORIES)"
    by (simp add: filtered_STUDIO)
  have outside: "DOCS_APP \<notin>
      set (filtered refPlatform (Some SCENARIO_APPS) (js ''  STUDIO '') ALL_CATEGORIES)"
    unfolding filtered_STUDIO by (simp add: STUDIO_APP_def DOCS_APP_def js_def)
  have q: "trim (js ''  STUDIO '') \<noteq> []"
    by (simp add: trim_def js_def isWhiteSpace_def)
  have "specSubstring (toLowerCase refPlatform (trim (js ''  STUDIO '')))
      (haystack refPlatform (STUDIO_APP))"
    using filtered_spec [OF refLower_Nil, of "STUDIO_APP" "Some SCENARIO_APPS"
        "js ''  STUDIO ''" ALL_CATEGORIES] inside q
    by (simp add: haystack_def)
  then have "specSubstring (js ''studio'') (haystack refPlatform (STUDIO_APP))"
    by (simp add: query_STUDIO)
  then show ?thesis using inside outside refLower_Nil by simp
qed

section \<open>Sorting and insertion-ordered sets\<close>

lemma mset_insertBy: "mset (insertBy cmp x ys) = add_mset x (mset ys)"
  by (induction ys) auto

lemma mset_sortWith: "mset (sortWith cmp xs) = mset xs"
  by (induction xs) (auto simp: sortWith_def mset_insertBy)

lemma set_sortWith: "set (sortWith cmp xs) = set xs"
proof -
  have "set_mset (mset (sortWith cmp xs)) = set_mset (mset xs)"
    by (simp only: mset_sortWith)
  then show ?thesis by simp
qed

lemma distinct_sortWith: "distinct (sortWith cmp xs) = distinct xs"
  using mset_sortWith [of cmp xs] by (rule mset_eq_imp_distinct_iff)

lemma sortWith_Nil: "sortWith cmp [] = []"
  by (simp add: sortWith_def)

lemma sortWith_Cons: "sortWith cmp (x # xs) = insertBy cmp x (sortWith cmp xs)"
  by (simp add: sortWith_def)

lemma set_insertBy: "set (insertBy cmp x ys) = insert x (set ys)"
  by (induction ys) auto

lemma consistentOn_total:
  "consistentOn cmp A \<Longrightarrow> a \<in> A \<Longrightarrow> b \<in> A \<Longrightarrow> cmp a b \<le> 0 \<or> cmp b a \<le> 0"
  unfolding consistentOn_def by blast

lemma consistentOn_trans:
  "consistentOn cmp A \<Longrightarrow> a \<in> A \<Longrightarrow> b \<in> A \<Longrightarrow> c \<in> A \<Longrightarrow>
   cmp a b \<le> 0 \<Longrightarrow> cmp b c \<le> 0 \<Longrightarrow> cmp a c \<le> 0"
  unfolding consistentOn_def by blast

lemma consistentOn_subset: "consistentOn cmp A \<Longrightarrow> B \<subseteq> A \<Longrightarrow> consistentOn cmp B"
  unfolding consistentOn_def by blast

lemma sorted_insertBy:
  assumes "consistentOn cmp A" and "x \<in> A" and "set ys \<subseteq> A"
    and "sorted_wrt (\<lambda>a b. cmp a b \<le> 0) ys"
  shows "sorted_wrt (\<lambda>a b. cmp a b \<le> 0) (insertBy cmp x ys)"
  using assms(3,4)
proof (induction ys)
  case Nil
  show ?case by simp
next
  case (Cons y ys)
  show ?case
  proof (cases "cmp x y \<le> 0")
    case True
    have "cmp x z \<le> 0" if "z \<in> set ys" for z
    proof -
      have "cmp y z \<le> 0" using Cons.prems(2) that by simp
      then show ?thesis
        using consistentOn_trans [OF assms(1) assms(2), of y z] True Cons.prems(1) that by auto
    qed
    then show ?thesis using True Cons.prems(2) by auto
  next
    case False
    then have yx: "cmp y x \<le> 0"
      using consistentOn_total [OF assms(1) assms(2), of y] Cons.prems(1) by auto
    have "sorted_wrt (\<lambda>a b. cmp a b \<le> 0) (insertBy cmp x ys)"
      using Cons by simp
    then show ?thesis
      using False yx Cons.prems(2) by (auto simp: set_insertBy)
  qed
qed

lemma sorted_sortWith:
  "consistentOn cmp A \<Longrightarrow> set xs \<subseteq> A \<Longrightarrow> sorted_wrt (\<lambda>a b. cmp a b \<le> 0) (sortWith cmp xs)"
proof (induction xs)
  case Nil
  show ?case by (simp add: sortWith_Nil)
next
  case (Cons x xs)
  then show ?case
    using sorted_insertBy [of cmp A x "sortWith cmp xs"]
    by (simp add: sortWith_Cons set_sortWith)
qed

lemma set_foldl_setAdd: "set (foldl setAdd s xs) = set s \<union> set xs"
  by (induction xs arbitrary: s) (auto simp: setAdd_def)

lemma distinct_foldl_setAdd: "distinct s \<Longrightarrow> distinct (foldl setAdd s xs)"
  by (induction xs arbitrary: s) (auto simp: setAdd_def)

section \<open>The catalog pipeline: category options\<close>

lemma categories_tail:
  "categories P apps =
     ALL_CATEGORIES # sortWith (localeCompare P) (foldl setAdd [] (map categoryKey (catalogOf apps)))"
  by (simp add: categories_def)

text \<open>
  Claim C7. The category options are computed from the whole catalog, whatever the query
  and the category filter: the sentinel followed by the distinct category keys of the
  catalog (the uncategorized sentinel for a record without category), without duplicates,
  and sorted ascending by the engine's plain comparison wherever that comparison is a
  consistent order on these keys. For an empty catalog, and before the catalog is loaded,
  they are the sentinel alone.
\<close>

theorem categories_spec:
  assumes "consistentOn (localeCompare P) (categoryKey ` set (catalogOf apps))"
  shows "(\<exists>ks. categories P apps = ALL_CATEGORIES # ks \<and> distinct ks \<and>
               set ks = categoryKey ` set (catalogOf apps) \<and>
               sorted_wrt (\<lambda>a b. localeCompare P a b \<le> 0) ks) \<and>
         categories P (Some []) = [ALL_CATEGORIES] \<and>
         categories P None = [ALL_CATEGORIES]"
proof -
  let ?ks = "sortWith (localeCompare P) (foldl setAdd [] (map categoryKey (catalogOf apps)))"
  have d: "distinct ?ks"
    by (simp add: distinct_sortWith distinct_foldl_setAdd)
  have s: "set ?ks = categoryKey ` set (catalogOf apps)"
    by (simp add: set_sortWith set_foldl_setAdd)
  have o: "sorted_wrt (\<lambda>a b. localeCompare P a b \<le> 0) ?ks"
    using assms by (rule sorted_sortWith) (simp add: set_foldl_setAdd)
  have "categories P apps = ALL_CATEGORIES # ?ks" by (rule categories_tail)
  then have 1: "\<exists>ks. categories P apps = ALL_CATEGORIES # ks \<and> distinct ks \<and>
               set ks = categoryKey ` set (catalogOf apps) \<and>
               sorted_wrt (\<lambda>a b. localeCompare P a b \<le> 0) ks"
    using d s o by blast
  have 2: "categories P (Some []) = [ALL_CATEGORIES]" "categories P None = [ALL_CATEGORIES]"
    by (simp_all add: categories_def catalogOf_def sortWith_Nil)
  show ?thesis using 1 2 by (intro conjI)
qed

lemma ref_Portal_Uncat:
  "refCompare (js ''Portal'') (js ''Portal'') = 0"
  "refCompare UNCATEGORIZED UNCATEGORIZED = 0"
  "refCompare (js ''Portal'') UNCATEGORIZED = - 1"
  "refCompare UNCATEGORIZED (js ''Portal'') = 1"
  by (simp_all add: refCompare_def js_def UNCATEGORIZED_def asciiLower_def isAsciiUpper_def)

lemma scenario_keys: "map categoryKey SCENARIO_APPS = [js ''Portal'', UNCATEGORIZED]"
  by (simp add: SCENARIO_APPS_def STUDIO_APP_def DOCS_APP_def categoryKey_def)

lemma Portal_neq_Uncat: "js ''Portal'' \<noteq> UNCATEGORIZED"
  by (simp add: js_def UNCATEGORIZED_def)

lemma scenario_consistent_keys:
  "consistentOn (localeCompare refPlatform) (categoryKey ` set SCENARIO_APPS)"
proof -
  have "categoryKey ` set SCENARIO_APPS = set (map categoryKey SCENARIO_APPS)" by simp
  then have "categoryKey ` set SCENARIO_APPS = {js ''Portal'', UNCATEGORIZED}"
    unfolding scenario_keys by simp
  then show ?thesis
    by (simp add: consistentOn_def refPlatform_def ref_Portal_Uncat)
qed

theorem categories_spec_witness:
  "consistentOn (localeCompare refPlatform) (categoryKey ` set (catalogOf (Some SCENARIO_APPS))) \<and>
   categories refPlatform (Some SCENARIO_APPS) = [ALL_CATEGORIES, js ''Portal'', UNCATEGORIZED] \<and>
   sorted_wrt (\<lambda>a b. localeCompare refPlatform a b \<le> 0) [js ''Portal'', UNCATEGORIZED]"
proof -
  have c: "consistentOn (localeCompare refPlatform) (categoryKey ` set (catalogOf (Some SCENARIO_APPS)))"
    using scenario_consistent_keys by (simp add: catalogOf_def)
  have v: "categories refPlatform (Some SCENARIO_APPS) = [ALL_CATEGORIES, js ''Portal'', UNCATEGORIZED]"
    unfolding categories_def catalogOf_def
    by (simp add: scenario_keys setAdd_def Portal_neq_Uncat Portal_neq_Uncat [symmetric]
        sortWith_def refPlatform_def ref_Portal_Uncat)
  have "\<exists>ks. categories refPlatform (Some SCENARIO_APPS) = ALL_CATEGORIES # ks \<and> distinct ks \<and>
      set ks = categoryKey ` set (catalogOf (Some SCENARIO_APPS)) \<and>
      sorted_wrt (\<lambda>a b. localeCompare refPlatform a b \<le> 0) ks"
    using categories_spec [OF c] by (rule conjunct1)
  then obtain ks where
    "categories refPlatform (Some SCENARIO_APPS) = ALL_CATEGORIES # ks"
    "sorted_wrt (\<lambda>a b. localeCompare refPlatform a b \<le> 0) ks"
    by (elim exE conjE)
  then have "sorted_wrt (\<lambda>a b. localeCompare refPlatform a b \<le> 0) [js ''Portal'', UNCATEGORIZED]"
    using v by simp
  then show ?thesis using c v by simp
qed

section \<open>The catalog pipeline: grouping\<close>

lemma map_of_map_keyed:
  "map_of (map (\<lambda>(k, v). (k, f k v)) xs) k = map_option (f k) (map_of xs k)"
  by (induction xs) auto

lemma groupStep_alt:
  "groupStep m a =
     map (\<lambda>(k, items). (k, if k = categoryKey a then items @ [a] else items))
       (if map_of m (categoryKey a) = None then m @ [(categoryKey a, [])] else m)"
proof -
  have "(\<lambda>(k, items). if k = categoryKey a then (k, items @ [a]) else (k, items)) =
      (\<lambda>(k, items). (k, if k = categoryKey a then items @ [a] else items))"
    by (auto simp: fun_eq_iff)
  then show ?thesis by (simp add: groupStep_def Let_def)
qed

lemma map_fst_keyed: "map fst (map (\<lambda>(k, v). (k, f k v)) xs) = map fst xs"
  by (induction xs) auto

lemma groupStep_keys: "map fst (groupStep m a) = setAdd (map fst m) (categoryKey a)"
  by (auto simp add: groupStep_alt map_fst_keyed setAdd_def map_of_eq_None_iff)

lemma groupStep_lookup:
  "(case map_of (groupStep m a) k of Some v \<Rightarrow> v | None \<Rightarrow> []) =
     (case map_of m k of Some v \<Rightarrow> v | None \<Rightarrow> []) @ (if categoryKey a = k then [a] else [])"
  by (auto simp add: groupStep_alt map_of_map_keyed map_add_def split: option.splits)

lemma foldl_groupStep_keys:
  "map fst (foldl groupStep m xs) = foldl setAdd (map fst m) (map categoryKey xs)"
  by (induction xs arbitrary: m) (simp_all add: groupStep_keys)

lemma foldl_groupStep_lookup:
  "(case map_of (foldl groupStep m xs) k of Some v \<Rightarrow> v | None \<Rightarrow> []) =
     (case map_of m k of Some v \<Rightarrow> v | None \<Rightarrow> []) @ filter (\<lambda>a. categoryKey a = k) xs"
proof (induction xs arbitrary: m)
  case Nil
  show ?case by simp
next
  case (Cons a xs)
  show ?case using Cons.IH [of "groupStep m a"] by (simp add: groupStep_lookup)
qed

lemma groupedOf_eq:
  "groupedOf P xs =
     map (\<lambda>k. (k, filter (\<lambda>a. categoryKey a = k) xs))
       (sortWith (localeCompare P) (foldl setAdd [] (map categoryKey xs)))"
  using foldl_groupStep_lookup [of "[]" xs] foldl_groupStep_keys [of "[]" xs]
  by (simp add: groupedOf_def Let_def)

lemma flatten_groupedOf:
  "flatten (groupedOf P xs) =
     concat (map (\<lambda>k. filter (\<lambda>a. categoryKey a = k) xs)
       (sortWith (localeCompare P) (foldl setAdd [] (map categoryKey xs))))"
  by (simp add: flatten_def groupedOf_eq comp_def)

lemma keys_groupedOf:
  "map fst (groupedOf P xs) = sortWith (localeCompare P) (foldl setAdd [] (map categoryKey xs))"
  by (simp add: groupedOf_eq comp_def)

lemma distinct_keys_groupedOf: "distinct (map fst (groupedOf P xs))"
  by (simp add: keys_groupedOf distinct_sortWith distinct_foldl_setAdd)

lemma set_keys_groupedOf: "set (map fst (groupedOf P xs)) = categoryKey ` set xs"
  by (simp add: keys_groupedOf set_sortWith set_foldl_setAdd)

lemma items_groupedOf:
  "g \<in> set (groupedOf P xs) \<Longrightarrow> snd g = filter (\<lambda>a. categoryKey a = fst g) xs"
  by (auto simp add: groupedOf_eq)

lemma mset_filter_split:
  "k \<notin> set ks \<Longrightarrow>
   mset (filter (\<lambda>a. f a = k) xs) + mset (filter (\<lambda>a. f a \<in> set ks) xs) =
   mset (filter (\<lambda>a. f a = k \<or> f a \<in> set ks) xs)"
  by (induction xs) auto

lemma mset_concat_buckets:
  "distinct ks \<Longrightarrow>
   mset (concat (map (\<lambda>k. filter (\<lambda>a. f a = k) xs) ks)) = mset (filter (\<lambda>a. f a \<in> set ks) xs)"
proof (induction ks)
  case Nil
  show ?case by simp
next
  case (Cons k ks)
  then have "k \<notin> set ks" and "distinct ks" by simp_all
  then show ?case
    using Cons.IH mset_filter_split [of k ks f xs] by simp
qed

lemma mset_flatten_groupedOf: "mset (flatten (groupedOf P xs)) = mset xs"
proof -
  let ?ks = "sortWith (localeCompare P) (foldl setAdd [] (map categoryKey xs))"
  have d: "distinct ?ks" by (simp add: distinct_sortWith distinct_foldl_setAdd)
  have s: "set ?ks = categoryKey ` set xs" by (simp add: set_sortWith set_foldl_setAdd)
  have "filter (\<lambda>a. categoryKey a \<in> set ?ks) xs = xs"
    unfolding s by (simp add: filter_id_conv)
  then show ?thesis
    using mset_concat_buckets [OF d, of categoryKey xs] by (simp add: flatten_groupedOf)
qed

text \<open>
  Claim C6. For every catalog, query, category filter and sort mode, the groups have
  distinct keys, which are exactly the category keys of the filtered and sorted records;
  each group holds the records of its key, in their sorted order; so a record lies in a
  group if and only if the group's key is the record's category key, and in exactly one
  group, and the groups laid end to end are a permutation of the sorted sequence.
\<close>

theorem grouped_partition:
  "distinct (map fst (grouped P apps query mode cat)) \<and>
   fst ` set (grouped P apps query mode cat) =
     categoryKey ` set (normalized P apps query mode cat) \<and>
   (\<forall>g\<in>set (grouped P apps query mode cat).
      snd g = filter (\<lambda>a. categoryKey a = fst g) (normalized P apps query mode cat)) \<and>
   (\<forall>a\<in>set (normalized P apps query mode cat). \<forall>g\<in>set (grouped P apps query mode cat).
      a \<in> set (snd g) \<longleftrightarrow> fst g = categoryKey a) \<and>
   mset (flatten (grouped P apps query mode cat)) = mset (normalized P apps query mode cat)"
proof -
  let ?S = "normalized P apps query mode cat"
  have g: "grouped P apps query mode cat = groupedOf P ?S" by (simp add: grouped_def)
  have 1: "distinct (map fst (groupedOf P ?S))" by (rule distinct_keys_groupedOf)
  have 2: "fst ` set (groupedOf P ?S) = categoryKey ` set ?S"
    using set_keys_groupedOf [of P ?S] by simp
  have 3: "\<forall>g\<in>set (groupedOf P ?S). snd g = filter (\<lambda>a. categoryKey a = fst g) ?S"
    using items_groupedOf by blast
  have 4: "\<forall>a\<in>set ?S. \<forall>g\<in>set (groupedOf P ?S). a \<in> set (snd g) \<longleftrightarrow> fst g = categoryKey a"
    using 3 by auto
  have 5: "mset (flatten (groupedOf P ?S)) = mset ?S" by (rule mset_flatten_groupedOf)
  show ?thesis unfolding g using 1 2 3 4 5 by (intro conjI)
qed


lemma filtered_all:
  "toLowerCase P [] = [] \<Longrightarrow> filtered P apps [] ALL_CATEGORIES = catalogOf apps"
  by (simp add: filtered_def passQuery_def passCat_def trim_def)

lemma scenario_url: "url STUDIO_APP = js ''https://studio.huny.dev''" "url DOCS_APP = js ''https://docs.huny.dev''"
  by (simp_all add: STUDIO_APP_def DOCS_APP_def)

lemma scenario_category: "categoryKey STUDIO_APP = js ''Portal''" "categoryKey DOCS_APP = UNCATEGORIZED"
  by (simp_all add: STUDIO_APP_def DOCS_APP_def categoryKey_def)

lemma ref_lower_Portal:
  "toLowerCase refPlatform (js ''Portal'') = js ''portal''"
  "toLowerCase refPlatform UNCATEGORIZED = UNCATEGORIZED"
  "toLowerCase refPlatform (js ''studio'') = js ''studio''"
  "toLowerCase refPlatform (js ''docs'') = js ''docs''"
  by (simp_all add: refPlatform_def js_def UNCATEGORIZED_def asciiLower_def isAsciiUpper_def)

lemma ref_names:
  "refCompare (js ''studio'') (js ''docs'') = 1"
  "refCompare (js ''docs'') (js ''studio'') = - 1"
  "refCompare (js ''studio'') (js ''studio'') = 0"
  "refCompare (js ''docs'') (js ''docs'') = 0"
  by (simp_all add: refCompare_def js_def asciiLower_def isAsciiUpper_def)

lemma ref_portal_uncat:
  "js ''portal'' \<noteq> UNCATEGORIZED"
  "refCompare (js ''portal'') UNCATEGORIZED = - 1"
  "refCompare UNCATEGORIZED (js ''portal'') = 1"
  by (simp_all add: refCompare_def js_def UNCATEGORIZED_def asciiLower_def isAsciiUpper_def)

lemma scenario_nameCompare:
  "nameCompare refPlatform STUDIO_APP DOCS_APP = 1"
  "nameCompare refPlatform DOCS_APP STUDIO_APP = - 1"
  "nameCompare refPlatform STUDIO_APP STUDIO_APP = 0"
  "nameCompare refPlatform DOCS_APP DOCS_APP = 0"
  unfolding nameCompare_def scenario_url studio_sub docs_sub ref_lower_Portal
  by (simp_all add: refPlatform_def ref_names)

lemma scenario_categoryCompare:
  "categoryCompare refPlatform STUDIO_APP DOCS_APP = - 1"
  "categoryCompare refPlatform DOCS_APP STUDIO_APP = 1"
  "categoryCompare refPlatform STUDIO_APP STUDIO_APP = 0"
  "categoryCompare refPlatform DOCS_APP DOCS_APP = 0"
  unfolding categoryCompare_def scenario_url scenario_category studio_sub docs_sub ref_lower_Portal
  by (simp_all add: refPlatform_def ref_names ref_portal_uncat ref_portal_uncat(1) [symmetric])

lemma scenario_filtered: "filtered refPlatform (Some SCENARIO_APPS) [] ALL_CATEGORIES = SCENARIO_APPS"
  using filtered_all [OF refLower_Nil, of "Some SCENARIO_APPS"] by (simp add: catalogOf_def)

lemma scenario_by_name:
  "normalized refPlatform (Some SCENARIO_APPS) [] Name ALL_CATEGORIES = [DOCS_APP, STUDIO_APP]"
  unfolding normalized_def scenario_filtered
  by (simp add: SCENARIO_APPS_def sortWith_def scenario_nameCompare)

lemma scenario_by_category:
  "normalized refPlatform (Some SCENARIO_APPS) [] Category ALL_CATEGORIES = [STUDIO_APP, DOCS_APP]"
  unfolding normalized_def scenario_filtered
  by (simp add: SCENARIO_APPS_def sortWith_def scenario_categoryCompare)

lemma scenario_grouped_by_name:
  "grouped refPlatform (Some SCENARIO_APPS) [] Name ALL_CATEGORIES =
     [(js ''Portal'', [STUDIO_APP]), (UNCATEGORIZED, [DOCS_APP])]"
  unfolding grouped_def scenario_by_name groupedOf_eq
  by (simp add: scenario_category setAdd_def Portal_neq_Uncat Portal_neq_Uncat [symmetric]
      sortWith_def refPlatform_def ref_Portal_Uncat)

text \<open>
  The scenario catalog under sort by name: the sorted sequence is Docs, Studio; the groups
  are Portal and the uncategorized group, so the groups laid end to end are Studio, Docs: a
  permutation of the sorted sequence, and not the sorted sequence.
\<close>

theorem grouped_partition_witness:
  "normalized refPlatform (Some SCENARIO_APPS) [] Name ALL_CATEGORIES = [DOCS_APP, STUDIO_APP] \<and>
   flatten (grouped refPlatform (Some SCENARIO_APPS) [] Name ALL_CATEGORIES) = [STUDIO_APP, DOCS_APP] \<and>
   mset [STUDIO_APP, DOCS_APP] = mset [DOCS_APP, STUDIO_APP] \<and>
   distinct [js ''Portal'', UNCATEGORIZED]"
proof -
  have f: "flatten (grouped refPlatform (Some SCENARIO_APPS) [] Name ALL_CATEGORIES) =
      [STUDIO_APP, DOCS_APP]"
    unfolding scenario_grouped_by_name by (simp add: flatten_def)
  have k: "map fst (grouped refPlatform (Some SCENARIO_APPS) [] Name ALL_CATEGORIES) =
      [js ''Portal'', UNCATEGORIZED]"
    unfolding scenario_grouped_by_name by simp
  have "distinct (map fst (grouped refPlatform (Some SCENARIO_APPS) [] Name ALL_CATEGORIES)) \<and>
      mset (flatten (grouped refPlatform (Some SCENARIO_APPS) [] Name ALL_CATEGORIES)) =
      mset (normalized refPlatform (Some SCENARIO_APPS) [] Name ALL_CATEGORIES)"
    using grouped_partition [of refPlatform "Some SCENARIO_APPS" "[]" Name ALL_CATEGORIES]
    by (intro conjI) (erule conjE, assumption, (erule conjE)+, assumption)
  then have "distinct [js ''Portal'', UNCATEGORIZED] \<and> mset [STUDIO_APP, DOCS_APP] = mset [DOCS_APP, STUDIO_APP]"
    unfolding f k scenario_by_name .
  then show ?thesis using f scenario_by_name by (intro conjI) (erule conjE, assumption)+
qed

section \<open>The catalog pipeline: flattening the groups\<close>

lemma filter_split_sorted:
  "sorted_wrt (\<lambda>a b. \<not> (\<not> Q a \<and> Q b)) xs \<Longrightarrow>
   filter Q xs @ filter (\<lambda>a. \<not> Q a) xs = xs"
proof (induction xs)
  case Nil
  show ?case by simp
next
  case (Cons a xs)
  show ?case
  proof (cases "Q a")
    case True
    then show ?thesis using Cons by simp
  next
    case False
    then have "\<forall>b\<in>set xs. \<not> Q b" using Cons.prems by auto
    then have "filter Q xs = []" and "filter (\<lambda>a. \<not> Q a) xs = xs"
      by (simp_all add: filter_empty_conv filter_id_conv)
    then show ?thesis using False by simp
  qed
qed

lemma sorted_wrt_distinct:
  "sorted_wrt R xs \<Longrightarrow> distinct xs \<Longrightarrow> sorted_wrt (\<lambda>a b. R a b \<and> a \<noteq> b) xs"
  by (induction xs) auto

lemma concat_buckets_sorted:
  assumes "distinct ks" and "f ` set xs \<subseteq> set ks"
    and "sorted_wrt R ks"
    and "sorted_wrt (\<lambda>a b. f a = f b \<or> R (f a) (f b)) xs"
    and asym: "\<And>k k'. R k k' \<Longrightarrow> \<not> R k' k"
  shows "concat (map (\<lambda>k. filter (\<lambda>a. f a = k) xs) ks) = xs"
  using assms(1-4)
proof (induction ks arbitrary: xs)
  case Nil
  then show ?case by simp
next
  case (Cons k ks)
  let ?rest = "filter (\<lambda>a. \<not> f a = k) xs"
  have first: "sorted_wrt (\<lambda>a b. \<not> (\<not> f a = k \<and> f b = k)) xs"
  proof (rule sorted_wrt_mono_rel [OF _ Cons.prems(4)])
    fix a b
    assume a: "a \<in> set xs" and b: "b \<in> set xs" and ab: "f a = f b \<or> R (f a) (f b)"
    show "\<not> (\<not> f a = k \<and> f b = k)"
    proof
      assume c: "\<not> f a = k \<and> f b = k"
      then have "R (f a) k" using ab by auto
      moreover have "f a \<in> set ks" using a c Cons.prems(2) by auto
      then have "R k (f a)" using Cons.prems(3) by simp
      ultimately show False using asym by blast
    qed
  qed
  have split: "filter (\<lambda>a. f a = k) xs @ ?rest = xs"
    using filter_split_sorted [OF first] by simp
  have "concat (map (\<lambda>k'. filter (\<lambda>a. f a = k') ?rest) ks) = ?rest"
  proof (rule Cons.IH)
    show "distinct ks" using Cons.prems(1) by simp
    show "f ` set ?rest \<subseteq> set ks" using Cons.prems(2) by auto
    show "sorted_wrt R ks" using Cons.prems(3) by simp
    show "sorted_wrt (\<lambda>a b. f a = f b \<or> R (f a) (f b)) ?rest"
      using Cons.prems(4) by (rule sorted_wrt_filter)
  qed
  moreover have "map (\<lambda>k'. filter (\<lambda>a. f a = k') ?rest) ks =
      map (\<lambda>k'. filter (\<lambda>a. f a = k') xs) ks"
  proof (rule map_cong [OF refl])
    fix k'
    assume "k' \<in> set ks"
    then have "k' \<noteq> k" using Cons.prems(1) by auto
    then have "\<And>a. (\<not> f a = k \<and> f a = k') = (f a = k')" by auto
    then show "filter (\<lambda>a. f a = k') ?rest = filter (\<lambda>a. f a = k') xs"
      by (simp add: filter_filter)
  qed
  ultimately have "concat (map (\<lambda>k'. filter (\<lambda>a. f a = k') xs) ks) = ?rest"
    by (simp only:)
  then have "filter (\<lambda>a. f a = k) xs @ concat (map (\<lambda>k'. filter (\<lambda>a. f a = k') xs) ks) = xs"
    using split by (simp only:)
  then show ?case by simp
qed

lemma keysAgreeD:
  "keysAgree P A \<Longrightarrow> a \<in> A \<Longrightarrow> b \<in> A \<Longrightarrow> categoryKey a \<noteq> categoryKey b \<Longrightarrow>
   categoryCompare P a b \<le> 0 \<Longrightarrow>
   localeCompare P (categoryKey a) (categoryKey b) \<le> 0 \<and>
   \<not> localeCompare P (categoryKey b) (categoryKey a) \<le> 0"
  unfolding keysAgree_def by blast

lemma flatten_sorted_by_category:
  assumes c1: "consistentOn (categoryCompare P) (set xs)"
    and c2: "consistentOn (localeCompare P) (categoryKey ` set xs)"
    and ag: "keysAgree P (set xs)"
  shows "flatten (groupedOf P (sortWith (categoryCompare P) xs)) = sortWith (categoryCompare P) xs"
proof -
  let ?S = "sortWith (categoryCompare P) xs"
  let ?ks = "sortWith (localeCompare P) (foldl setAdd [] (map categoryKey ?S))"
  let ?R = "\<lambda>k k'. localeCompare P k k' \<le> 0 \<and> \<not> localeCompare P k' k \<le> 0"
  have setS: "set ?S = set xs" by (rule set_sortWith)
  have d: "distinct ?ks" by (simp add: distinct_sortWith distinct_foldl_setAdd)
  have s: "set ?ks = categoryKey ` set xs"
    by (simp add: set_sortWith set_foldl_setAdd)
  have sortedS: "sorted_wrt (\<lambda>a b. categoryCompare P a b \<le> 0) ?S"
    using c1 by (rule sorted_sortWith) simp
  have sortedK: "sorted_wrt (\<lambda>k k'. localeCompare P k k' \<le> 0) ?ks"
    using c2 by (rule sorted_sortWith) (simp add: set_foldl_setAdd set_sortWith)
  have strict: "?R k k'"
    if k: "k \<in> categoryKey ` set xs" and k': "k' \<in> categoryKey ` set xs"
      and le: "localeCompare P k k' \<le> 0" and ne: "k \<noteq> k'" for k k'
  proof -
    from k obtain a where a: "a \<in> set xs" "categoryKey a = k" by auto
    from k' obtain b where b: "b \<in> set xs" "categoryKey b = k'" by auto
    have "categoryCompare P a b \<le> 0 \<or> categoryCompare P b a \<le> 0"
      using consistentOn_total [OF c1 a(1) b(1)] .
    then show ?thesis
    proof
      assume "categoryCompare P a b \<le> 0"
      then show ?thesis using keysAgreeD [OF ag a(1) b(1)] a(2) b(2) ne by simp
    next
      assume "categoryCompare P b a \<le> 0"
      then have "\<not> localeCompare P k k' \<le> 0"
        using keysAgreeD [OF ag b(1) a(1)] a(2) b(2) ne by simp
      then show ?thesis using le by simp
    qed
  qed
  have "sorted_wrt (\<lambda>k k'. localeCompare P k k' \<le> 0 \<and> k \<noteq> k') ?ks"
    using sortedK d by (rule sorted_wrt_distinct)
  then have sortedR: "sorted_wrt ?R ?ks"
  proof (rule sorted_wrt_mono_rel [rotated])
    fix k k'
    assume k: "k \<in> set ?ks" and k': "k' \<in> set ?ks"
      and le: "localeCompare P k k' \<le> 0 \<and> k \<noteq> k'"
    have "k \<in> categoryKey ` set xs" and "k' \<in> categoryKey ` set xs"
      using k k' unfolding s by simp_all
    then show "?R k k'"
      using le by (intro strict) simp_all
  qed
  have grouped_order: "sorted_wrt (\<lambda>a b. categoryKey a = categoryKey b \<or> ?R (categoryKey a) (categoryKey b)) ?S"
  proof (rule sorted_wrt_mono_rel [OF _ sortedS])
    fix a b
    assume a: "a \<in> set ?S" and b: "b \<in> set ?S" and le: "categoryCompare P a b \<le> 0"
    have ab: "a \<in> set xs" "b \<in> set xs" using a b unfolding setS by simp_all
    show "categoryKey a = categoryKey b \<or> ?R (categoryKey a) (categoryKey b)"
    proof (cases "categoryKey a = categoryKey b")
      case True
      then show ?thesis by (rule disjI1)
    next
      case False
      have "?R (categoryKey a) (categoryKey b)"
        using ag ab False le by (rule keysAgreeD)
      then show ?thesis by (rule disjI2)
    qed
  qed
  have "concat (map (\<lambda>k. filter (\<lambda>a. categoryKey a = k) ?S) ?ks) = ?S"
  proof (rule concat_buckets_sorted [where R = ?R])
    show "distinct ?ks" by (rule d)
    show "categoryKey ` set ?S \<subseteq> set ?ks" using s setS by simp
    show "sorted_wrt ?R ?ks" by (rule sortedR)
    show "sorted_wrt (\<lambda>a b. categoryKey a = categoryKey b \<or> ?R (categoryKey a) (categoryKey b)) ?S"
      by (rule grouped_order)
    show "\<And>k k'. ?R k k' \<Longrightarrow> \<not> ?R k' k" by simp
  qed
  then show ?thesis by (simp add: flatten_groupedOf)
qed

lemma case_keys:
  "categoryKey ALPHA_APP = js ''tools''" "categoryKey BETA_APP = js ''Tools''"
  "categoryKey GAMMA_APP = js ''tools''"
  by (simp_all add: ALPHA_APP_def BETA_APP_def GAMMA_APP_def categoryKey_def)

lemma tools_neq: "js ''tools'' \<noteq> js ''Tools''" "js ''Tools'' \<noteq> js ''tools''"
  by (simp_all add: js_def)

lemma case_distinct:
  "ALPHA_APP \<noteq> BETA_APP" "BETA_APP \<noteq> GAMMA_APP" "GAMMA_APP \<noteq> BETA_APP"
  by (simp_all add: ALPHA_APP_def BETA_APP_def GAMMA_APP_def js_def)

text \<open>
  Whatever the platform's parser and comparisons: once the sort leaves Alpha, Beta, Gamma in
  this order, the groups laid end to end differ from it, since Beta's group holds Beta alone
  and comes either last or first.
\<close>

lemma case_apps_flatten:
  assumes "toLowerCase P [] = []"
    and "categoryCompare P ALPHA_APP BETA_APP \<le> 0"
    and "categoryCompare P BETA_APP GAMMA_APP \<le> 0"
  shows "normalized P (Some CASE_APPS) [] Category ALL_CATEGORIES =
           [ALPHA_APP, BETA_APP, GAMMA_APP] \<and>
         (flatten (grouped P (Some CASE_APPS) [] Category ALL_CATEGORIES) =
            [ALPHA_APP, GAMMA_APP, BETA_APP] \<or>
          flatten (grouped P (Some CASE_APPS) [] Category ALL_CATEGORIES) =
            [BETA_APP, ALPHA_APP, GAMMA_APP])"
proof -
  have f: "filtered P (Some CASE_APPS) [] ALL_CATEGORIES = CASE_APPS"
    using filtered_all [OF assms(1), of "Some CASE_APPS"] by (simp add: catalogOf_def)
  have n: "normalized P (Some CASE_APPS) [] Category ALL_CATEGORIES =
      [ALPHA_APP, BETA_APP, GAMMA_APP]"
    unfolding normalized_def f using assms(2,3)
    by (simp add: CASE_APPS_def sortWith_def)
  have k: "foldl setAdd [] (map categoryKey [ALPHA_APP, BETA_APP, GAMMA_APP]) =
      [js ''tools'', js ''Tools'']"
    by (simp add: case_keys setAdd_def tools_neq)
  have "flatten (groupedOf P [ALPHA_APP, BETA_APP, GAMMA_APP]) = [ALPHA_APP, GAMMA_APP, BETA_APP] \<or>
      flatten (groupedOf P [ALPHA_APP, BETA_APP, GAMMA_APP]) = [BETA_APP, ALPHA_APP, GAMMA_APP]"
    unfolding flatten_groupedOf k
    by (cases "localeCompare P (js ''tools'') (js ''Tools'') \<le> 0") (simp_all add: sortWith_def case_keys tools_neq)
  then show ?thesis using n by (simp add: grouped_def)
qed

lemma refHostname_case:
  "refHostname (js ''https://alpha.huny.dev'') = Some (js ''alpha.huny.dev'')"
  "refHostname (js ''https://beta.huny.dev'') = Some (js ''beta.huny.dev'')"
  "refHostname (js ''https://gamma.huny.dev'') = Some (js ''gamma.huny.dev'')"
  by (simp_all add: refHostname_def js_def startsWith_def isHostUnit_def isAsciiUpper_def
      isAsciiLower_def asciiLower_def)

lemma case_hosts:
  "getHostname refPlatform (js ''https://alpha.huny.dev'') = js ''alpha.huny.dev''"
  "getHostname refPlatform (js ''https://beta.huny.dev'') = js ''beta.huny.dev''"
  "getHostname refPlatform (js ''https://gamma.huny.dev'') = js ''gamma.huny.dev''"
  by (simp_all add: getHostname_def refPlatform_def refHostname_case)

lemma case_subs:
  "getSubdomainForSort refPlatform (url ALPHA_APP) = js ''alpha''"
  "getSubdomainForSort refPlatform (url BETA_APP) = js ''beta''"
  "getSubdomainForSort refPlatform (url GAMMA_APP) = js ''gamma''"
proof -
  have u: "url ALPHA_APP = js ''https://alpha.huny.dev''" "url BETA_APP = js ''https://beta.huny.dev''"
    "url GAMMA_APP = js ''https://gamma.huny.dev''"
    by (simp_all add: ALPHA_APP_def BETA_APP_def GAMMA_APP_def)
  show "getSubdomainForSort refPlatform (url ALPHA_APP) = js ''alpha''"
    unfolding u getSubdomainForSort_def case_hosts
    by (simp add: ROOT_DOMAIN_def endsWith_def split_def js_def)
  show "getSubdomainForSort refPlatform (url BETA_APP) = js ''beta''"
    unfolding u getSubdomainForSort_def case_hosts
    by (simp add: ROOT_DOMAIN_def endsWith_def split_def js_def)
  show "getSubdomainForSort refPlatform (url GAMMA_APP) = js ''gamma''"
    unfolding u getSubdomainForSort_def case_hosts
    by (simp add: ROOT_DOMAIN_def endsWith_def split_def js_def)
qed

lemma ref_lower_tools:
  "toLowerCase refPlatform (js ''tools'') = js ''tools''"
  "toLowerCase refPlatform (js ''Tools'') = js ''tools''"
  "toLowerCase refPlatform (js ''alpha'') = js ''alpha''"
  "toLowerCase refPlatform (js ''beta'') = js ''beta''"
  "toLowerCase refPlatform (js ''gamma'') = js ''gamma''"
  by (simp_all add: refPlatform_def js_def asciiLower_def isAsciiUpper_def)

lemma ref_case_names:
  "refCompare (js ''alpha'') (js ''beta'') = - 1"
  "refCompare (js ''beta'') (js ''gamma'') = - 1"
  "refCompare (js ''tools'') (js ''Tools'') = - 1"
  by (simp_all add: refCompare_def js_def asciiLower_def isAsciiUpper_def)

lemma case_categoryCompare:
  "categoryCompare refPlatform ALPHA_APP BETA_APP = - 1"
  "categoryCompare refPlatform BETA_APP GAMMA_APP = - 1"
  unfolding categoryCompare_def case_keys case_subs ref_lower_tools
  by (simp_all add: refPlatform_def ref_case_names)

text \<open>
  Claim C1, as the specification states it, fails. The sort by category compares the
  case-folded category keys, and the grouping buckets the raw keys. In the catalog Alpha
  (category \<open>tools\<close>), Beta (category \<open>Tools\<close>), Gamma (category \<open>tools\<close>) the three
  categories are equal after case folding, so the sorted sequence is by name: Alpha, Beta,
  Gamma. The grouping makes two groups, \<open>tools\<close> with Alpha and Gamma and \<open>Tools\<close> with
  Beta, and laid end to end they are Alpha, Gamma, Beta.
\<close>

theorem flatten_grouped_category_counterexample:
  "normalized refPlatform (Some CASE_APPS) [] Category ALL_CATEGORIES =
     [ALPHA_APP, BETA_APP, GAMMA_APP] \<and>
   flatten (grouped refPlatform (Some CASE_APPS) [] Category ALL_CATEGORIES) =
     [ALPHA_APP, GAMMA_APP, BETA_APP] \<and>
   flatten (grouped refPlatform (Some CASE_APPS) [] Category ALL_CATEGORIES) \<noteq>
     normalized refPlatform (Some CASE_APPS) [] Category ALL_CATEGORIES"
proof -
  have c: "categoryCompare refPlatform ALPHA_APP BETA_APP \<le> 0"
      "categoryCompare refPlatform BETA_APP GAMMA_APP \<le> 0"
    by (simp_all add: case_categoryCompare)
  have n: "normalized refPlatform (Some CASE_APPS) [] Category ALL_CATEGORIES =
      [ALPHA_APP, BETA_APP, GAMMA_APP]"
    using case_apps_flatten [OF refLower_Nil c] by (rule conjunct1)
  have k: "foldl setAdd [] (map categoryKey [ALPHA_APP, BETA_APP, GAMMA_APP]) =
      [js ''tools'', js ''Tools'']"
    by (simp add: case_keys setAdd_def tools_neq)
  have g: "flatten (grouped refPlatform (Some CASE_APPS) [] Category ALL_CATEGORIES) =
      [ALPHA_APP, GAMMA_APP, BETA_APP]"
    unfolding grouped_def n flatten_groupedOf k
    by (simp add: sortWith_def refPlatform_def ref_case_names case_keys tools_neq)
  have "[ALPHA_APP, GAMMA_APP, BETA_APP] \<noteq> [ALPHA_APP, BETA_APP, GAMMA_APP]"
    by (simp add: case_distinct)
  then show ?thesis unfolding n g by simp
qed

text \<open>
  Claim C1, amended. When the sort mode is category then name, the groups laid end to end
  are exactly the sorted sequence, record for record, provided that on the filtered
  records the engine's comparisons are consistent orders (the sort's comparison on the
  records, the plain comparison on their category keys) and the plain comparison of the
  raw category keys agrees with the sort: two records with different category keys that
  the sort does not place in reverse have their keys in the same strict order in the plain
  comparison.
\<close>

theorem flatten_grouped_category:
  assumes "consistentOn (categoryCompare P) (set (filtered P apps query cat))"
    and "consistentOn (localeCompare P) (categoryKey ` set (filtered P apps query cat))"
    and "keysAgree P (set (filtered P apps query cat))"
  shows "flatten (grouped P apps query Category cat) = normalized P apps query Category cat"
proof -
  have "normalized P apps query Category cat =
      sortWith (categoryCompare P) (filtered P apps query cat)"
    by (simp add: normalized_def)
  then show ?thesis
    using flatten_sorted_by_category [OF assms] by (simp add: grouped_def)
qed

lemma ref_localeCompare: "localeCompare refPlatform = refCompare"
  by (simp add: refPlatform_def)

theorem flatten_grouped_category_witness:
  "consistentOn (categoryCompare refPlatform)
     (set (filtered refPlatform (Some SCENARIO_APPS) [] ALL_CATEGORIES)) \<and>
   consistentOn (localeCompare refPlatform)
     (categoryKey ` set (filtered refPlatform (Some SCENARIO_APPS) [] ALL_CATEGORIES)) \<and>
   keysAgree refPlatform (set (filtered refPlatform (Some SCENARIO_APPS) [] ALL_CATEGORIES)) \<and>
   normalized refPlatform (Some SCENARIO_APPS) [] Category ALL_CATEGORIES = [STUDIO_APP, DOCS_APP] \<and>
   flatten (grouped refPlatform (Some SCENARIO_APPS) [] Category ALL_CATEGORIES) =
     [STUDIO_APP, DOCS_APP]"
proof -
  have h1: "consistentOn (categoryCompare refPlatform)
      (set (filtered refPlatform (Some SCENARIO_APPS) [] ALL_CATEGORIES))"
    unfolding scenario_filtered unfolding SCENARIO_APPS_def
    by (simp add: consistentOn_def scenario_categoryCompare)
  have h2: "consistentOn (localeCompare refPlatform)
      (categoryKey ` set (filtered refPlatform (Some SCENARIO_APPS) [] ALL_CATEGORIES))"
    unfolding scenario_filtered by (rule scenario_consistent_keys)
  have h3: "keysAgree refPlatform (set (filtered refPlatform (Some SCENARIO_APPS) [] ALL_CATEGORIES))"
    unfolding scenario_filtered unfolding SCENARIO_APPS_def
    by (simp add: keysAgree_def scenario_categoryCompare scenario_category ref_localeCompare
        ref_Portal_Uncat)
  have "flatten (grouped refPlatform (Some SCENARIO_APPS) [] Category ALL_CATEGORIES) =
      normalized refPlatform (Some SCENARIO_APPS) [] Category ALL_CATEGORIES"
    using h1 h2 h3 by (rule flatten_grouped_category)
  then have "flatten (grouped refPlatform (Some SCENARIO_APPS) [] Category ALL_CATEGORIES) =
      [STUDIO_APP, DOCS_APP]"
    unfolding scenario_by_category .
  then show ?thesis using h1 h2 h3 scenario_by_category by (intro conjI)
qed

end
